theory Spec2Isabelle
  imports Complex_Main
begin

unbundle bit_operations_syntax

section \<open>A trace-driven cache simulator (cachesim.py)\<close>

text \<open>
  The simulator keeps one \<open>Cache\<close> object per configuration and replays a list of
  \<open>(op_type, address)\<close> pairs against it. Python integers are unbounded, so every
  numeric field is an \<^typ>\<open>int\<close>. Methods that mutate the object take the state and
  return the new one; an exception is a value \<open>Inl e\<close> that ends the run.
\<close>

subsection \<open>Errors\<close>

datatype error =
    RuntimeError string
  | ValueError
  | OverflowError
  | ZeroDivisionError
  | IndexError

definition and_then :: "error + 'a \<Rightarrow> ('a \<Rightarrow> error + 'b) \<Rightarrow> error + 'b" where
  "and_then m f = (case m of Inl e \<Rightarrow> Inl e | Inr x \<Rightarrow> f x)"

subsection \<open>Python primitives used by the simulator\<close>

text \<open>\<open>a // b\<close> on integers: floor division, \<open>ZeroDivisionError\<close> for a zero divisor.\<close>

definition floordiv :: "int \<Rightarrow> int \<Rightarrow> error + int" where
  "floordiv a b = (if b = 0 then Inl ZeroDivisionError else Inr (a div b))"

text \<open>
  \<open>a >> n\<close> and \<open>a << n\<close>: arithmetic shifts on unbounded integers, \<open>ValueError\<close> for a
  negative shift count.
\<close>

definition rshift :: "int \<Rightarrow> int \<Rightarrow> error + int" where
  "rshift a n = (if n < 0 then Inl ValueError else Inr (drop_bit (nat n) a))"

definition lshift :: "int \<Rightarrow> int \<Rightarrow> error + int" where
  "lshift a n = (if n < 0 then Inl ValueError else Inr (push_bit (nat n) a))"

text \<open>
  \<open>int(np.log2(n))\<close>. For \<open>n < 0\<close> numpy yields \<open>nan\<close> and \<open>int\<close> raises \<open>ValueError\<close>;
  for \<open>n = 0\<close> numpy yields \<open>-inf\<close> and \<open>int\<close> raises \<open>OverflowError\<close>; for \<open>n > 0\<close>
  the logarithm is truncated to its integer part, \<open>floor_log2\<close>. numpy computes in
  64-bit floats: the result is exact on the powers of two and has the same integer part
  as the true logarithm for every operand below \<open>2 ^ 40\<close>; for larger operands the
  float can round up to the next integer, which the model does not follow.
\<close>

fun floor_log2 :: "nat \<Rightarrow> nat" where
  "floor_log2 n = (if n < 2 then 0 else Suc (floor_log2 (n div 2)))"

declare floor_log2.simps [simp del]

definition int_log2 :: "int \<Rightarrow> error + int" where
  "int_log2 n =
     (if n < 0 then Inl ValueError
      else if n = 0 then Inl OverflowError
      else Inr (int (floor_log2 (nat n))))"

text \<open>
  \<open>xs[i]\<close> for an integer \<open>i\<close>: the position it reads (a negative \<open>i\<close> counts from
  the end of the list), or \<open>IndexError\<close>.
\<close>

definition list_pos :: "'a list \<Rightarrow> int \<Rightarrow> error + nat" where
  "list_pos xs i =
     (if 0 \<le> i \<and> i < int (length xs) then Inr (nat i)
      else if - int (length xs) \<le> i \<and> i < 0 then Inr (nat (int (length xs) + i))
      else Inl IndexError)"

subsection \<open>Block, Set, Cache\<close>

text \<open>\<open>class Block\<close>: \<open>size\<close> is the field \<open>blk_size\<close> here.\<close>

record block =
  blk_size :: int
  valid :: bool
  dirty :: bool
  tag :: int
  data :: "int list"
  last_used :: int

definition Block :: "int \<Rightarrow> block" where
  "Block sz = \<lparr> blk_size = sz, valid = False, dirty = False, tag = 0,
                data = replicate (nat sz) 0, last_used = 0 \<rparr>"

record cache_set =
  lines :: "block list"

definition Set_init :: "int \<Rightarrow> int \<Rightarrow> cache_set" where
  "Set_init nways bsz = \<lparr> lines = replicate (nat nways) (Block bsz) \<rparr>"

text \<open>\<open>Cache.PlacementType\<close> and \<open>Cache.WritePolicy\<close> are class-scoped integer constants.\<close>

definition Direct_Mapped :: int where "Direct_Mapped = 0"
definition Two_Way :: int where "Two_Way = 1"
definition Four_Way :: int where "Four_Way = 2"
definition Fully_Associative :: int where "Fully_Associative = 3"

definition WB :: int where "WB = 0"
definition WT :: int where "WT = 1"

record cache =
  cache_size :: int
  block_size :: int
  placement_type :: int
  write_policy :: int
  num_ways :: int
  num_sets :: int
  num_blocks :: int
  offset_bits :: int
  set_bits :: int
  tag_shift :: int
  sets :: "cache_set list"
  total_requests :: int
  total_hits :: int
  bytes_to_cache :: int
  bytes_to_memory :: int
  access_count :: int

text \<open>
  \<open>Cache.__init__(cache_size, block_size, write_policy, placement_type)\<close>, statement by
  statement. The fully-associative branch sets \<open>num_sets = 1\<close>, and the assignment after
  the branch overwrites it with \<open>num_blocks // num_ways\<close> for every placement.
\<close>

definition Cache_init :: "int \<Rightarrow> int \<Rightarrow> int \<Rightarrow> int \<Rightarrow> error + cache" where
  "Cache_init csize bsize wpolicy ptype =
     (if bsize = 0 then Inl (RuntimeError ''Block size must be greater than zero.'')
      else if csize = 0 then Inl (RuntimeError ''Cache size must be greater than zero.'')
      else
        and_then
          (if ptype = Direct_Mapped then Inr 1
           else if ptype = Two_Way then Inr 2
           else if ptype = Four_Way then Inr 4
           else if ptype = Fully_Associative then floordiv csize bsize
           else Inl (RuntimeError ''Invalid placement type.''))
          (\<lambda>nways.
        and_then (floordiv csize bsize) (\<lambda>nblocks.
        and_then (floordiv nblocks nways) (\<lambda>nsets.
        and_then (int_log2 bsize) (\<lambda>obits.
        and_then (if ptype = Fully_Associative then Inr 0 else int_log2 nsets) (\<lambda>sbits.
          Inr \<lparr> cache_size = csize, block_size = bsize, placement_type = ptype,
                write_policy = wpolicy, num_ways = nways, num_sets = nsets,
                num_blocks = nblocks, offset_bits = obits, set_bits = sbits,
                tag_shift = obits + sbits,
                sets = replicate (nat nsets) (Set_init nways bsize),
                total_requests = 0, total_hits = 0, bytes_to_cache = 0,
                bytes_to_memory = 0, access_count = 0 \<rparr>))))))"

subsection \<open>Address decoding\<close>

definition get_tag :: "cache \<Rightarrow> int \<Rightarrow> error + int" where
  "get_tag c address = rshift address (tag_shift c)"

definition get_block_index :: "cache \<Rightarrow> int \<Rightarrow> error + int" where
  "get_block_index c address =
     (if placement_type c = Fully_Associative then Inr 0
      else and_then (rshift address (offset_bits c)) (\<lambda>hi.
           and_then (lshift 1 (set_bits c)) (\<lambda>p. Inr (hi AND (p - 1)))))"

subsection \<open>Replacement policy\<close>

text \<open>
  The loop of \<open>find_lru_block\<close> over \<open>enumerate(lines)\<close>: \<open>i\<close> is the running index,
  \<open>min_used\<close> starts as \<open>float('inf')\<close> (here \<open>None\<close>: every integer is smaller) and
  \<open>min_index\<close> as 0.
\<close>

fun lru_scan :: "block list \<Rightarrow> nat \<Rightarrow> int option \<Rightarrow> nat \<Rightarrow> nat" where
  "lru_scan [] i min_used min_index = min_index"
| "lru_scan (b # bs) i min_used min_index =
     (if \<not> valid b then i
      else if (case min_used of None \<Rightarrow> True | Some m \<Rightarrow> last_used b < m)
           then lru_scan bs (Suc i) (Some (last_used b)) i
           else lru_scan bs (Suc i) min_used min_index)"

definition find_lru :: "block list \<Rightarrow> nat" where
  "find_lru ls = lru_scan ls 0 None 0"

definition find_lru_block :: "cache \<Rightarrow> int \<Rightarrow> error + nat" where
  "find_lru_block c set_index =
     and_then (list_pos (sets c) set_index) (\<lambda>k. Inr (find_lru (lines (sets c ! k))))"

subsection \<open>read and write\<close>

text \<open>
  The scan of \<open>read\<close> and \<open>write\<close> over the ways of a set: the first way that is
  valid and holds the tag, counted from \<open>i\<close>.
\<close>

fun find_hit :: "block list \<Rightarrow> int \<Rightarrow> nat \<Rightarrow> nat option" where
  "find_hit [] t i = None"
| "find_hit (b # bs) t i = (if valid b \<and> tag b = t then Some i else find_hit bs t (Suc i))"

definition put_block :: "cache \<Rightarrow> nat \<Rightarrow> nat \<Rightarrow> block \<Rightarrow> cache" where
  "put_block c k i b =
     c\<lparr> sets := (sets c)[k := (sets c ! k)\<lparr> lines := (lines (sets c ! k))[i := b] \<rparr>] \<rparr>"

text \<open>
  \<open>read\<close>, in three parts: the body of the hit branch inside the scan, the code after
  the scan (the miss), and the method itself. \<open>k\<close> is the position of the set in
  \<open>self.sets\<close> and \<open>i\<close> the way that hit.
\<close>

definition read_hit :: "cache \<Rightarrow> nat \<Rightarrow> nat \<Rightarrow> cache" where
  "read_hit c k i =
     (let c1 = c\<lparr> total_hits := total_hits c + 1 \<rparr>;
          c2 = c1\<lparr> access_count := access_count c1 + 1 \<rparr>
      in put_block c2 k i ((lines (sets c2 ! k) ! i)\<lparr> last_used := access_count c2 \<rparr>))"

definition read_miss :: "cache \<Rightarrow> int \<Rightarrow> nat \<Rightarrow> int \<Rightarrow> error + cache" where
  "read_miss c set_index k t =
     (let c1 = c\<lparr> bytes_to_cache := bytes_to_cache c + block_size c \<rparr> in
      and_then (find_lru_block c1 set_index) (\<lambda>r.
        let ls = lines (sets c1 ! k) in
        if r < length ls then
          let c2 = (if write_policy c1 = WB \<and> valid (ls ! r) \<and> dirty (ls ! r)
                    then c1\<lparr> bytes_to_memory := bytes_to_memory c1 + block_size c1 \<rparr>
                    else c1);
              c3 = c2\<lparr> access_count := access_count c2 + 1 \<rparr>
          in Inr (put_block c3 k r
                    ((ls ! r)\<lparr> valid := True, dirty := False, tag := t,
                              last_used := access_count c3 \<rparr>))
        else Inl IndexError))"

definition read :: "cache \<Rightarrow> int \<Rightarrow> error + (bool \<times> cache)" where
  "read c address =
     (let c1 = c\<lparr> total_requests := total_requests c + 1 \<rparr> in
      and_then (get_block_index c1 address) (\<lambda>set_index.
      and_then (get_tag c1 address) (\<lambda>t.
      and_then (list_pos (sets c1) set_index) (\<lambda>k.
        case find_hit (lines (sets c1 ! k)) t 0 of
          Some i \<Rightarrow> Inr (True, read_hit c1 k i)
        | None \<Rightarrow> and_then (read_miss c1 set_index k t) (\<lambda>c'. Inr (False, c'))))))"

text \<open>\<open>write\<close>, in the same three parts; the scan stops at the first hit (\<open>break\<close>).\<close>

definition write_hit :: "cache \<Rightarrow> nat \<Rightarrow> nat \<Rightarrow> cache" where
  "write_hit c k i =
     (let c1 = c\<lparr> total_hits := total_hits c + 1 \<rparr>;
          c2 = c1\<lparr> access_count := access_count c1 + 1 \<rparr>;
          b = (lines (sets c2 ! k) ! i)\<lparr> last_used := access_count c2 \<rparr>
      in if write_policy c2 = WB then put_block c2 k i (b\<lparr> dirty := True \<rparr>)
         else put_block (c2\<lparr> bytes_to_memory := bytes_to_memory c2 + 4 \<rparr>) k i b)"

definition write_miss :: "cache \<Rightarrow> int \<Rightarrow> nat \<Rightarrow> int \<Rightarrow> error + cache" where
  "write_miss c set_index k t =
     (let c1 = c\<lparr> bytes_to_cache := bytes_to_cache c + block_size c \<rparr> in
      and_then (find_lru_block c1 set_index) (\<lambda>r.
        let ls = lines (sets c1 ! k) in
        if r < length ls then
          let c2 = (if write_policy c1 = WB \<and> valid (ls ! r) \<and> dirty (ls ! r)
                    then c1\<lparr> bytes_to_memory := bytes_to_memory c1 + block_size c1 \<rparr>
                    else c1);
              c3 = c2\<lparr> access_count := access_count c2 + 1 \<rparr>;
              b = (ls ! r)\<lparr> valid := True, tag := t, last_used := access_count c3 \<rparr>
          in if write_policy c3 = WB then Inr (put_block c3 k r (b\<lparr> dirty := True \<rparr>))
             else Inr (put_block (c3\<lparr> bytes_to_memory := bytes_to_memory c3 + 4 \<rparr>) k r
                         (b\<lparr> dirty := False \<rparr>))
        else Inl IndexError))"

definition "write" :: "cache \<Rightarrow> int \<Rightarrow> error + (bool \<times> cache)" where
  "write c address =
     (let c1 = c\<lparr> total_requests := total_requests c + 1 \<rparr> in
      and_then (get_block_index c1 address) (\<lambda>set_index.
      and_then (get_tag c1 address) (\<lambda>t.
      and_then (list_pos (sets c1) set_index) (\<lambda>k.
        case find_hit (lines (sets c1 ! k)) t 0 of
          Some i \<Rightarrow> Inr (True, write_hit c1 k i)
        | None \<Rightarrow> and_then (write_miss c1 set_index k t) (\<lambda>c'. Inr (False, c'))))))"

text \<open>A sequence of calls on one cache; the first exception ends it.\<close>

datatype call = Read int | Write int

fun run :: "cache \<Rightarrow> call list \<Rightarrow> error + cache" where
  "run c [] = Inr c"
| "run c (Read a # cs) = and_then (read c a) (\<lambda>(h, c'). run c' cs)"
| "run c (Write a # cs) = and_then (write c a) (\<lambda>(h, c'). run c' cs)"

subsection \<open>Statistics\<close>

text \<open>
  \<open>a / b\<close> on integers: true division, \<open>ZeroDivisionError\<close> for a zero divisor. Python
  returns the float nearest to the quotient; the model keeps the quotient itself, as a
  rational.
\<close>

definition truediv :: "int \<Rightarrow> int \<Rightarrow> error + rat" where
  "truediv a b =
     (if b = 0 then Inl ZeroDivisionError else Inr (rat_of_int a / rat_of_int b))"

text \<open>\<open>get_hit_rate\<close>: the guard returns 0 before the division is reached.\<close>

definition get_hit_rate :: "cache \<Rightarrow> error + rat" where
  "get_hit_rate c =
     (if total_requests c = 0 then Inr 0
      else truediv (total_hits c) (total_requests c))"

subsection \<open>Trace ingestion\<close>

text \<open>
  \<open>read_trace_file\<close>: the file is \<open>None\<close> when it does not exist (\<open>FileNotFoundError\<close>
  is caught and the empty list returned) and the list of its lines otherwise. The
  built-ins are parameters: \<open>split_line\<close> is \<open>line.strip().split()\<close> and \<open>parse_hex\<close> is
  \<open>int(s, 16)\<close>, \<open>None\<close> where it raises \<open>ValueError\<close>, which nothing catches.
\<close>

fun trace_loop ::
  "(string \<Rightarrow> string list) \<Rightarrow> (string \<Rightarrow> int option) \<Rightarrow> (string \<times> int) list \<Rightarrow>
     string list \<Rightarrow> error + (string \<times> int) list" where
  "trace_loop split_line parse_hex operations [] = Inr operations"
| "trace_loop split_line parse_hex operations (line # rest) =
     (let parts = split_line line in
      if length parts = 2 then
        (case parse_hex (parts ! 1) of
           None \<Rightarrow> Inl ValueError
         | Some address \<Rightarrow>
             trace_loop split_line parse_hex (operations @ [(parts ! 0, address)]) rest)
      else trace_loop split_line parse_hex operations rest)"

definition read_trace_file ::
  "(string \<Rightarrow> string list) \<Rightarrow> (string \<Rightarrow> int option) \<Rightarrow> string list option \<Rightarrow>
     error + (string \<times> int) list" where
  "read_trace_file split_line parse_hex file =
     (case file of None \<Rightarrow> Inr [] | Some ls \<Rightarrow> trace_loop split_line parse_hex [] ls)"

text \<open>
  The two built-ins on ASCII text. \<open>str.split()\<close> cuts at runs of white space;
  \<open>int(s, 16)\<close> takes an optional sign, an optional \<open>0x\<close> prefix and hexadecimal digits,
  with single underscores between digits and after the prefix.
\<close>

definition is_space :: "char \<Rightarrow> bool" where
  "is_space ch = ((of_char ch :: nat) \<in> {9, 10, 11, 12, 13, 28, 29, 30, 31, 32})"

fun split_ws :: "string \<Rightarrow> string \<Rightarrow> string list" where
  "split_ws cur [] = (if cur = [] then [] else [cur])"
| "split_ws cur (ch # s) =
     (if is_space ch then (if cur = [] then split_ws [] s else cur # split_ws [] s)
      else split_ws (cur @ [ch]) s)"

definition ascii_fields :: "string \<Rightarrow> string list" where
  "ascii_fields line = split_ws [] line"

definition hex_digit :: "char \<Rightarrow> int option" where
  "hex_digit ch =
     (let n = (of_char ch :: nat) in
      if 48 \<le> n \<and> n \<le> 57 then Some (int n - 48)
      else if 97 \<le> n \<and> n \<le> 102 then Some (int n - 87)
      else if 65 \<le> n \<and> n \<le> 70 then Some (int n - 55)
      else None)"

text \<open>\<open>prev_us\<close>: the previous character was an underscore; \<open>acc\<close>: the value so far.\<close>

fun hex_digits :: "bool \<Rightarrow> int \<Rightarrow> string \<Rightarrow> int option" where
  "hex_digits prev_us acc [] = (if prev_us then None else Some acc)"
| "hex_digits prev_us acc (ch # s) =
     (if ch = CHR ''_'' then (if prev_us then None else hex_digits True acc s)
      else (case hex_digit ch of
              None \<Rightarrow> None
            | Some d \<Rightarrow> hex_digits False (16 * acc + d) s))"

definition strip :: "string \<Rightarrow> string" where
  "strip s = rev (dropWhile is_space (rev (dropWhile is_space s)))"

definition ascii_int16 :: "string \<Rightarrow> int option" where
  "ascii_int16 s =
     (let s1 = strip s;
          neg = (s1 \<noteq> [] \<and> hd s1 = CHR ''-'');
          s2 = (if s1 \<noteq> [] \<and> (hd s1 = CHR ''+'' \<or> hd s1 = CHR ''-'') then tl s1 else s1);
          s3 = (case s2 of
                  a # b # r \<Rightarrow>
                    if a = CHR ''0'' \<and> (b = CHR ''x'' \<or> b = CHR ''X'')
                    then (case r of u # r' \<Rightarrow> if u = CHR ''_'' then r' else r | [] \<Rightarrow> r)
                    else s2
                | _ \<Rightarrow> s2)
      in if s3 = [] \<or> hd s3 = CHR ''_'' then None
         else map_option (\<lambda>v. if neg then - v else v) (hex_digits False 0 s3))"

subsection \<open>The sweep driver\<close>

text \<open>\<open>str.lower()\<close> on ASCII text.\<close>

definition lower_char :: "char \<Rightarrow> char" where
  "lower_char ch =
     (let n = (of_char ch :: nat) in if 65 \<le> n \<and> n \<le> 90 then char_of (n + 32) else ch)"

definition lower :: "string \<Rightarrow> string" where
  "lower s = map lower_char s"

text \<open>
  The body of the loop over the operations in \<open>simulate_trace\<close>: an operation that is
  neither a read nor a write is passed over.
\<close>

definition is_read_op :: "string \<Rightarrow> bool" where
  "is_read_op op_type = (lower op_type = ''read'' \<or> lower op_type = ''load'')"

definition is_write_op :: "string \<Rightarrow> bool" where
  "is_write_op op_type = (lower op_type = ''write'' \<or> lower op_type = ''store'')"

fun replay :: "cache \<Rightarrow> (string \<times> int) list \<Rightarrow> error + cache" where
  "replay c [] = Inr c"
| "replay c ((op_type, address) # ops) =
     (if is_read_op op_type then and_then (read c address) (\<lambda>(h, c'). replay c' ops)
      else if is_write_op op_type then and_then (write c address) (\<lambda>(h, c'). replay c' ops)
      else replay c ops)"

text \<open>
  The four nested loops of \<open>simulate_trace\<close>, in their order, as the list of
  \<open>(cache_size, block_size, placement, write_policy)\<close> they visit.
\<close>

definition configurations ::
  "int list \<Rightarrow> int list \<Rightarrow> int list \<Rightarrow> int list \<Rightarrow> (int \<times> int \<times> int \<times> int) list" where
  "configurations cache_sizes block_sizes placement_types write_policies =
     concat (map (\<lambda>cs. concat (map (\<lambda>bs. concat (map (\<lambda>pt. map (\<lambda>wp. (cs, bs, pt, wp))
       write_policies) placement_types)) block_sizes)) cache_sizes)"

text \<open>
  One configuration after the other: a \<open>RuntimeError\<close> of the constructor is caught and
  the configuration skipped (\<open>continue\<close>); any other exception leaves the sweep. A result
  is the final state of the cache, from which \<open>get_result_str\<close> prints its record.
\<close>

fun sweep :: "(int \<times> int \<times> int \<times> int) list \<Rightarrow> (string \<times> int) list \<Rightarrow> error + cache list" where
  "sweep [] ops = Inr []"
| "sweep ((cs, bs, pt, wp) # cfgs) ops =
     (case Cache_init cs bs wp pt of
        Inl (RuntimeError msg) \<Rightarrow> sweep cfgs ops
      | Inl e \<Rightarrow> Inl e
      | Inr c \<Rightarrow>
          and_then (replay c ops) (\<lambda>c'.
          and_then (sweep cfgs ops) (\<lambda>results. Inr (c' # results))))"

definition simulate_trace ::
  "(string \<Rightarrow> string list) \<Rightarrow> (string \<Rightarrow> int option) \<Rightarrow> string list option \<Rightarrow>
     error + cache list" where
  "simulate_trace split_line parse_hex file =
     and_then (read_trace_file split_line parse_hex file) (\<lambda>operations.
       sweep (configurations [1024, 2048, 8192, 65536] [4, 8, 32, 256]
                [Direct_Mapped, Two_Way, Four_Way, Fully_Associative] [WB, WT])
         operations)"

subsection \<open>Properties of a cache state\<close>

text \<open>The geometry fields of a cache: the four parameters and the six derived ones.\<close>

definition geometry ::
  "cache \<Rightarrow> int \<times> int \<times> int \<times> int \<times> int \<times> int \<times> int \<times> int \<times> int \<times> int" where
  "geometry c =
     (cache_size c, block_size c, placement_type c, write_policy c, num_ways c,
      num_sets c, num_blocks c, offset_bits c, set_bits c, tag_shift c)"

text \<open>The calls that the loop of \<open>simulate_trace\<close> makes for a list of operations.\<close>

definition calls_of :: "(string \<times> int) list \<Rightarrow> call list" where
  "calls_of ops =
     concat (map (\<lambda>(op_type, address).
       if is_read_op op_type then [Read address]
       else if is_write_op op_type then [Write address] else []) ops)"

text \<open>
  No two ways of a set are valid with the same tag; \<open>sets_ok\<close> says it of every set of
  a cache.
\<close>

definition no_duplicate_tags :: "block list \<Rightarrow> bool" where
  "no_duplicate_tags ls =
     (\<forall>i<length ls. \<forall>j<length ls.
        valid (ls ! i) \<and> valid (ls ! j) \<and> tag (ls ! i) = tag (ls ! j) \<longrightarrow> i = j)"

definition sets_ok :: "cache \<Rightarrow> bool" where
  "sets_ok c = (\<forall>s\<in>set (sets c). no_duplicate_tags (lines s))"

text \<open>
  The shape that lets every call return: shift counts are not negative, there is a set,
  every index that \<open>get_block_index\<close> can produce is a position of \<open>sets\<close>, and every
  set has a way.
\<close>

definition shaped :: "cache \<Rightarrow> bool" where
  "shaped c =
     (0 \<le> offset_bits c \<and> 0 \<le> set_bits c \<and> 0 \<le> tag_shift c \<and> sets c \<noteq> []
      \<and> (placement_type c \<noteq> Fully_Associative \<longrightarrow>
            (2 :: int) ^ nat (set_bits c) \<le> int (length (sets c)))
      \<and> (\<forall>s\<in>set (sets c). lines s \<noteq> []))"

section \<open>Basic facts\<close>

text \<open>
  What one call changes: the counters, the geometry (nothing), and one block of one set.
  \<open>read_cases\<close> and \<open>write_cases\<close> split a call that returns into its hit and its miss.
\<close>

lemma and_then_Inr:
  "and_then m f = Inr y \<longleftrightarrow> (\<exists>x. m = Inr x \<and> f x = Inr y)"
  by (cases m) (simp_all add: and_then_def)

lemma put_block_fields:
  "cache_size (put_block c k i b) = cache_size c"
  "block_size (put_block c k i b) = block_size c"
  "placement_type (put_block c k i b) = placement_type c"
  "write_policy (put_block c k i b) = write_policy c"
  "num_ways (put_block c k i b) = num_ways c"
  "num_sets (put_block c k i b) = num_sets c"
  "num_blocks (put_block c k i b) = num_blocks c"
  "offset_bits (put_block c k i b) = offset_bits c"
  "set_bits (put_block c k i b) = set_bits c"
  "tag_shift (put_block c k i b) = tag_shift c"
  "total_requests (put_block c k i b) = total_requests c"
  "total_hits (put_block c k i b) = total_hits c"
  "bytes_to_cache (put_block c k i b) = bytes_to_cache c"
  "bytes_to_memory (put_block c k i b) = bytes_to_memory c"
  "access_count (put_block c k i b) = access_count c"
  by (simp_all add: put_block_def)

lemma geometry_put_block: "geometry (put_block c k i b) = geometry c"
  by (simp add: geometry_def put_block_fields)

lemma read_hit_counters:
  "total_requests (read_hit c k i) = total_requests c"
  "total_hits (read_hit c k i) = total_hits c + 1"
  "bytes_to_cache (read_hit c k i) = bytes_to_cache c"
  "bytes_to_memory (read_hit c k i) = bytes_to_memory c"
  "access_count (read_hit c k i) = access_count c + 1"
  "geometry (read_hit c k i) = geometry c"
  by (simp_all add: read_hit_def Let_def put_block_fields geometry_put_block)
     (simp add: geometry_def)

lemma write_hit_counters:
  "total_requests (write_hit c k i) = total_requests c"
  "total_hits (write_hit c k i) = total_hits c + 1"
  "bytes_to_cache (write_hit c k i) = bytes_to_cache c"
  "bytes_to_memory (write_hit c k i) = bytes_to_memory c + (if write_policy c = WB then 0 else 4)"
  "access_count (write_hit c k i) = access_count c + 1"
  "geometry (write_hit c k i) = geometry c"
  by (simp_all add: write_hit_def Let_def put_block_fields geometry_put_block)
     (simp add: geometry_def)

lemma read_miss_counters:
  assumes "read_miss c si k t = Inr c'"
  shows "total_requests c' = total_requests c"
    and "total_hits c' = total_hits c"
    and "bytes_to_cache c' = bytes_to_cache c + block_size c"
    and "access_count c' = access_count c + 1"
    and "write_policy c \<noteq> WB \<Longrightarrow> bytes_to_memory c' = bytes_to_memory c"
    and "geometry c' = geometry c"
  using assms
  by (auto simp: read_miss_def Let_def and_then_Inr put_block_fields geometry_def
           split: if_splits)

lemma write_miss_counters:
  assumes "write_miss c si k t = Inr c'"
  shows "total_requests c' = total_requests c"
    and "total_hits c' = total_hits c"
    and "bytes_to_cache c' = bytes_to_cache c + block_size c"
    and "access_count c' = access_count c + 1"
    and "write_policy c \<noteq> WB \<Longrightarrow> bytes_to_memory c' = bytes_to_memory c + 4"
    and "geometry c' = geometry c"
  using assms
  by (auto simp: write_miss_def Let_def and_then_Inr put_block_fields geometry_def
           split: if_splits)

lemma read_cases:
  assumes "read c a = Inr (h, c')"
  obtains (hit) si t k i where
      "list_pos (sets c) si = Inr k" "find_hit (lines (sets c ! k)) t 0 = Some i"
      "h" "c' = read_hit (c\<lparr>total_requests := total_requests c + 1\<rparr>) k i"
  | (miss) si t k where
      "list_pos (sets c) si = Inr k" "find_hit (lines (sets c ! k)) t 0 = None"
      "\<not> h" "read_miss (c\<lparr>total_requests := total_requests c + 1\<rparr>) si k t = Inr c'"
proof -
  define c1 where "c1 = c\<lparr>total_requests := total_requests c + 1\<rparr>"
  have s: "sets c1 = sets c" by (simp add: c1_def)
  from assms obtain si t k where
    k: "list_pos (sets c) si = Inr k" and
    r: "(case find_hit (lines (sets c ! k)) t 0 of
          Some i \<Rightarrow> Inr (True, read_hit c1 k i)
        | None \<Rightarrow> and_then (read_miss c1 si k t) (\<lambda>c'. Inr (False, c'))) = Inr (h, c')"
    unfolding read_def Let_def c1_def [symmetric] and_then_Inr s by blast
  show ?thesis
  proof (cases "find_hit (lines (sets c ! k)) t 0")
    case None
    with r have "\<not> h" "read_miss c1 si k t = Inr c'"
      by (auto simp: and_then_Inr)
    then show ?thesis using miss [OF k None] by (simp add: c1_def)
  next
    case (Some i)
    with r have "h" "c' = read_hit c1 k i" by auto
    then show ?thesis using hit [OF k Some] by (simp add: c1_def)
  qed
qed

lemma write_cases:
  assumes "write c a = Inr (h, c')"
  obtains (hit) si t k i where
      "list_pos (sets c) si = Inr k" "find_hit (lines (sets c ! k)) t 0 = Some i"
      "h" "c' = write_hit (c\<lparr>total_requests := total_requests c + 1\<rparr>) k i"
  | (miss) si t k where
      "list_pos (sets c) si = Inr k" "find_hit (lines (sets c ! k)) t 0 = None"
      "\<not> h" "write_miss (c\<lparr>total_requests := total_requests c + 1\<rparr>) si k t = Inr c'"
proof -
  define c1 where "c1 = c\<lparr>total_requests := total_requests c + 1\<rparr>"
  have s: "sets c1 = sets c" by (simp add: c1_def)
  from assms obtain si t k where
    k: "list_pos (sets c) si = Inr k" and
    r: "(case find_hit (lines (sets c ! k)) t 0 of
          Some i \<Rightarrow> Inr (True, write_hit c1 k i)
        | None \<Rightarrow> and_then (write_miss c1 si k t) (\<lambda>c'. Inr (False, c'))) = Inr (h, c')"
    unfolding write_def Let_def c1_def [symmetric] and_then_Inr s by blast
  show ?thesis
  proof (cases "find_hit (lines (sets c ! k)) t 0")
    case None
    with r have "\<not> h" "write_miss c1 si k t = Inr c'"
      by (auto simp: and_then_Inr)
    then show ?thesis using miss [OF k None] by (simp add: c1_def)
  next
    case (Some i)
    with r have "h" "c' = write_hit c1 k i" by auto
    then show ?thesis using hit [OF k Some] by (simp add: c1_def)
  qed
qed

lemma read_step:
  assumes "read c a = Inr (h, c')"
  shows "total_requests c' = total_requests c + 1"
    and "total_hits c' = total_hits c + (if h then 1 else 0)"
    and "bytes_to_cache c' = bytes_to_cache c + (if h then 0 else block_size c)"
    and "access_count c' = access_count c + 1"
    and "write_policy c \<noteq> WB \<Longrightarrow> bytes_to_memory c' = bytes_to_memory c"
    and "geometry c' = geometry c"
proof -
  let ?c1 = "c\<lparr>total_requests := total_requests c + 1\<rparr>"
  have g: "geometry ?c1 = geometry c" by (simp add: geometry_def)
  from assms have
    "total_requests c' = total_requests c + 1
     \<and> total_hits c' = total_hits c + (if h then 1 else 0)
     \<and> bytes_to_cache c' = bytes_to_cache c + (if h then 0 else block_size c)
     \<and> access_count c' = access_count c + 1
     \<and> (write_policy c \<noteq> WB \<longrightarrow> bytes_to_memory c' = bytes_to_memory c)
     \<and> geometry c' = geometry c"
  proof (cases rule: read_cases)
    case (hit si t k i)
    then show ?thesis by (simp add: read_hit_counters g)
  next
    case (miss si t k)
    from read_miss_counters [OF miss(4)] miss(3) show ?thesis by (simp add: g)
  qed
  then show "total_requests c' = total_requests c + 1"
    and "total_hits c' = total_hits c + (if h then 1 else 0)"
    and "bytes_to_cache c' = bytes_to_cache c + (if h then 0 else block_size c)"
    and "access_count c' = access_count c + 1"
    and "write_policy c \<noteq> WB \<Longrightarrow> bytes_to_memory c' = bytes_to_memory c"
    and "geometry c' = geometry c"
    by simp_all
qed

lemma write_step:
  assumes "write c a = Inr (h, c')"
  shows "total_requests c' = total_requests c + 1"
    and "total_hits c' = total_hits c + (if h then 1 else 0)"
    and "bytes_to_cache c' = bytes_to_cache c + (if h then 0 else block_size c)"
    and "access_count c' = access_count c + 1"
    and "write_policy c \<noteq> WB \<Longrightarrow> bytes_to_memory c' = bytes_to_memory c + 4"
    and "geometry c' = geometry c"
proof -
  let ?c1 = "c\<lparr>total_requests := total_requests c + 1\<rparr>"
  have g: "geometry ?c1 = geometry c" by (simp add: geometry_def)
  from assms have
    "total_requests c' = total_requests c + 1
     \<and> total_hits c' = total_hits c + (if h then 1 else 0)
     \<and> bytes_to_cache c' = bytes_to_cache c + (if h then 0 else block_size c)
     \<and> access_count c' = access_count c + 1
     \<and> (write_policy c \<noteq> WB \<longrightarrow> bytes_to_memory c' = bytes_to_memory c + 4)
     \<and> geometry c' = geometry c"
  proof (cases rule: write_cases)
    case (hit si t k i)
    then show ?thesis by (simp add: write_hit_counters g)
  next
    case (miss si t k)
    from write_miss_counters [OF miss(4)] miss(3) show ?thesis by (simp add: g)
  qed
  then show "total_requests c' = total_requests c + 1"
    and "total_hits c' = total_hits c + (if h then 1 else 0)"
    and "bytes_to_cache c' = bytes_to_cache c + (if h then 0 else block_size c)"
    and "access_count c' = access_count c + 1"
    and "write_policy c \<noteq> WB \<Longrightarrow> bytes_to_memory c' = bytes_to_memory c + 4"
    and "geometry c' = geometry c"
    by simp_all
qed

lemma run_invariant:
  assumes "run c cs = Inr c'" and "P c"
    and "\<And>c a h c'. P c \<Longrightarrow> read c a = Inr (h, c') \<Longrightarrow> P c'"
    and "\<And>c a h c'. P c \<Longrightarrow> write c a = Inr (h, c') \<Longrightarrow> P c'"
  shows "P c'"
  using assms(1,2)
proof (induction cs arbitrary: c)
  case Nil
  then show ?case by simp
next
  case (Cons x xs)
  show ?case
  proof (cases x)
    case (Read a)
    with Cons.prems obtain h c1 where "read c a = Inr (h, c1)" "run c1 xs = Inr c'"
      by (auto simp: and_then_Inr)
    with Cons show ?thesis using assms(3) by blast
  next
    case (Write a)
    with Cons.prems obtain h c1 where "write c a = Inr (h, c1)" "run c1 xs = Inr c'"
      by (auto simp: and_then_Inr)
    with Cons show ?thesis using assms(4) by blast
  qed
qed

lemma replay_run: "replay c ops = run c (calls_of ops)"
proof (induction ops arbitrary: c)
  case Nil
  show ?case by (simp add: calls_of_def)
next
  case (Cons x xs)
  obtain op_type address where x: "x = (op_type, address)" by (cases x)
  have tl: "calls_of (x # xs) =
    (if is_read_op op_type then [Read address]
     else if is_write_op op_type then [Write address] else []) @ calls_of xs"
    by (simp add: calls_of_def x)
  show ?case
    unfolding x replay.simps tl [unfolded x]
    by (simp add: Cons.IH and_then_def split: sum.splits)
qed

lemma Cache_init_Inr:
  assumes "Cache_init cs bs wp pt = Inr c"
  shows "cache_size c = cs" and "block_size c = bs" and "write_policy c = wp"
    and "placement_type c = pt"
    and "total_requests c = 0" and "total_hits c = 0" and "bytes_to_cache c = 0"
    and "bytes_to_memory c = 0" and "access_count c = 0"
    and "sets c = replicate (nat (num_sets c)) (Set_init (num_ways c) bs)"
    and "num_blocks c = cs div bs" and "bs \<noteq> 0" and "cs \<noteq> 0"
    and "num_ways c \<noteq> 0" and "num_sets c = num_blocks c div num_ways c"
    and "pt = Fully_Associative \<Longrightarrow> num_ways c = cs div bs"
    and "pt \<noteq> Fully_Associative \<Longrightarrow> num_ways c \<in> {1, 2, 4}"
    and "0 < bs"
    and "0 \<le> offset_bits c" and "0 \<le> set_bits c"
    and "tag_shift c = offset_bits c + set_bits c"
    and "pt \<noteq> Fully_Associative \<Longrightarrow>
           0 < num_sets c \<and> set_bits c = int (floor_log2 (nat (num_sets c)))"
proof -
  show bs: "bs \<noteq> 0" using assms by (cases "bs = 0") (simp_all add: Cache_init_def)
  show cs: "cs \<noteq> 0" using assms bs by (cases "cs = 0") (simp_all add: Cache_init_def)
  have "and_then
          (if pt = Direct_Mapped then Inr 1
           else if pt = Two_Way then Inr 2
           else if pt = Four_Way then Inr 4
           else if pt = Fully_Associative then floordiv cs bs
           else Inl (RuntimeError ''Invalid placement type.''))
          (\<lambda>nways.
        and_then (floordiv cs bs) (\<lambda>nblocks.
        and_then (floordiv nblocks nways) (\<lambda>nsets.
        and_then (int_log2 bs) (\<lambda>obits.
        and_then (if pt = Fully_Associative then Inr 0 else int_log2 nsets) (\<lambda>sbits.
          Inr \<lparr> cache_size = cs, block_size = bs, placement_type = pt,
                write_policy = wp, num_ways = nways, num_sets = nsets,
                num_blocks = nblocks, offset_bits = obits, set_bits = sbits,
                tag_shift = obits + sbits,
                sets = replicate (nat nsets) (Set_init nways bs),
                total_requests = 0, total_hits = 0, bytes_to_cache = 0,
                bytes_to_memory = 0, access_count = 0 \<rparr>))))) = Inr c"
    using assms bs cs by (simp add: Cache_init_def)
  from this [unfolded and_then_Inr] obtain nways nblocks nsets obits sbits where
    nw: "(if pt = Direct_Mapped then Inr 1
           else if pt = Two_Way then Inr 2
           else if pt = Four_Way then Inr 4
           else if pt = Fully_Associative then floordiv cs bs
           else Inl (RuntimeError ''Invalid placement type.'')) = Inr nways"
    and nb: "floordiv cs bs = Inr nblocks"
    and ns: "floordiv nblocks nways = Inr nsets"
    and ob: "int_log2 bs = Inr obits"
    and sb: "(if pt = Fully_Associative then Inr 0 else int_log2 nsets) = Inr sbits"
    and c: "c = \<lparr> cache_size = cs, block_size = bs, placement_type = pt,
                write_policy = wp, num_ways = nways, num_sets = nsets,
                num_blocks = nblocks, offset_bits = obits, set_bits = sbits,
                tag_shift = obits + sbits,
                sets = replicate (nat nsets) (Set_init nways bs),
                total_requests = 0, total_hits = 0, bytes_to_cache = 0,
                bytes_to_memory = 0, access_count = 0 \<rparr>"
    by auto
  from nb bs have nb': "nblocks = cs div bs" by (simp add: floordiv_def)
  from ns have nw0: "nways \<noteq> 0" and ns': "nsets = nblocks div nways"
    by (simp_all add: floordiv_def split: if_splits)
  show "0 < bs" using ob by (simp add: int_log2_def split: if_splits)
  show "cache_size c = cs" "block_size c = bs" "write_policy c = wp" "placement_type c = pt"
    "total_requests c = 0" "total_hits c = 0" "bytes_to_cache c = 0"
    "bytes_to_memory c = 0" "access_count c = 0"
    "sets c = replicate (nat (num_sets c)) (Set_init (num_ways c) bs)"
    by (simp_all add: c)
  show "num_blocks c = cs div bs" by (simp add: c nb')
  show "num_ways c \<noteq> 0" by (simp add: c nw0)
  show "num_sets c = num_blocks c div num_ways c" by (simp add: c ns')
  show "num_ways c = cs div bs" if "pt = Fully_Associative"
    using nw that bs
    by (simp add: c floordiv_def Direct_Mapped_def Two_Way_def Four_Way_def
          Fully_Associative_def)
  show "num_ways c \<in> {1, 2, 4}" if "pt \<noteq> Fully_Associative"
    using nw that by (auto simp: c split: if_splits)
  show "0 \<le> offset_bits c"
    using ob by (auto simp: c int_log2_def split: if_splits)
  show "0 \<le> set_bits c"
    using sb by (auto simp: c int_log2_def split: if_splits)
  show "tag_shift c = offset_bits c + set_bits c" by (simp add: c)
  show "0 < num_sets c \<and> set_bits c = int (floor_log2 (nat (num_sets c)))"
    if "pt \<noteq> Fully_Associative"
    using sb that by (auto simp: c int_log2_def split: if_splits)
qed

lemma Inr_projr: "\<not> isl x \<Longrightarrow> x = Inr (projr x)"
  by (cases x) simp_all

text \<open>
  The scan of the replacement policy, for any start index and any running minimum: with
  an invalid way ahead it stops at the first one; over valid ways only it either keeps
  the minimum it came with or moves to the first way that is strictly below it and not
  above any other.
\<close>

lemma lru_scan_invalid:
  assumes "\<exists>b\<in>set bs. \<not> valid b"
  shows "i \<le> lru_scan bs i mu mi \<and> lru_scan bs i mu mi < i + length bs
       \<and> \<not> valid (bs ! (lru_scan bs i mu mi - i))
       \<and> (\<forall>j<lru_scan bs i mu mi - i. valid (bs ! j))"
  using assms
proof (induction bs arbitrary: i mu mi)
  case Nil
  then show ?case by simp
next
  case (Cons b bs)
  show ?case
  proof (cases "valid b")
    case False
    then show ?thesis by simp
  next
    case True
    with Cons.prems have ex: "\<exists>b\<in>set bs. \<not> valid b" by auto
    define r where "r = lru_scan (b # bs) i mu mi"
    have "\<exists>mu' mi'. r = lru_scan bs (Suc i) mu' mi'"
      using True by (auto simp: r_def)
    then obtain mu' mi' where r: "r = lru_scan bs (Suc i) mu' mi'" by blast
    from Cons.IH [OF ex, of "Suc i" mu' mi'] r
    have a: "Suc i \<le> r" "r < Suc i + length bs" "\<not> valid (bs ! (r - Suc i))"
      "\<forall>j<r - Suc i. valid (bs ! j)" by simp_all
    from a(1) have idx: "r - i = Suc (r - Suc i)" by simp
    have "\<forall>j<r - i. valid ((b # bs) ! j)"
    proof (intro allI impI)
      fix j assume "j < r - i"
      then show "valid ((b # bs) ! j)"
        using a(4) True idx by (cases j) simp_all
    qed
    with a idx show ?thesis unfolding r_def [symmetric] by simp
  qed
qed

lemma lru_scan_valid:
  assumes "\<forall>b\<in>set bs. valid b"
  shows "(lru_scan bs i mu mi = mi \<and> (\<forall>b\<in>set bs. \<exists>m. mu = Some m \<and> m \<le> last_used b))
       \<or> (i \<le> lru_scan bs i mu mi \<and> lru_scan bs i mu mi < i + length bs
          \<and> (\<forall>m. mu = Some m \<longrightarrow> last_used (bs ! (lru_scan bs i mu mi - i)) < m)
          \<and> (\<forall>j<length bs. last_used (bs ! (lru_scan bs i mu mi - i)) \<le> last_used (bs ! j))
          \<and> (\<forall>j<lru_scan bs i mu mi - i.
                last_used (bs ! (lru_scan bs i mu mi - i)) < last_used (bs ! j)))"
  using assms
proof (induction bs arbitrary: i mu mi)
  case Nil
  then show ?case by simp
next
  case (Cons b bs)
  then have vb: "valid b" and vbs: "\<forall>b\<in>set bs. valid b" by simp_all
  define r where "r = lru_scan (b # bs) i mu mi"
  show ?case
  proof (cases "case mu of None \<Rightarrow> True | Some m \<Rightarrow> last_used b < m")
    case True
    then have r: "r = lru_scan bs (Suc i) (Some (last_used b)) i"
      using vb by (simp add: r_def)
    from True have lt: "\<forall>m. mu = Some m \<longrightarrow> last_used b < m" by (simp split: option.splits)
    from Cons.IH [OF vbs, of "Suc i" "Some (last_used b)" i]
    consider (keep) "r = i" "\<forall>b'\<in>set bs. last_used b \<le> last_used b'"
      | (move) "Suc i \<le> r" "r < Suc i + length bs"
          "last_used (bs ! (r - Suc i)) < last_used b"
          "\<forall>j<length bs. last_used (bs ! (r - Suc i)) \<le> last_used (bs ! j)"
          "\<forall>j<r - Suc i. last_used (bs ! (r - Suc i)) < last_used (bs ! j)"
      unfolding r [symmetric] by auto
    then have "i \<le> r \<and> r < i + length (b # bs)
          \<and> (\<forall>m. mu = Some m \<longrightarrow> last_used ((b # bs) ! (r - i)) < m)
          \<and> (\<forall>j<length (b # bs). last_used ((b # bs) ! (r - i)) \<le> last_used ((b # bs) ! j))
          \<and> (\<forall>j<r - i. last_used ((b # bs) ! (r - i)) < last_used ((b # bs) ! j))"
    proof cases
      case keep
      have "\<forall>j<length (b # bs). last_used b \<le> last_used ((b # bs) ! j)"
      proof (intro allI impI)
        fix j assume "j < length (b # bs)"
        then show "last_used b \<le> last_used ((b # bs) ! j)"
          using keep(2) by (cases j) simp_all
      qed
      with keep(1) lt show ?thesis by simp
    next
      case move
      from move(1) have idx: "r - i = Suc (r - Suc i)" by simp
      have le: "\<forall>j<length (b # bs). last_used (bs ! (r - Suc i)) \<le> last_used ((b # bs) ! j)"
      proof (intro allI impI)
        fix j assume "j < length (b # bs)"
        then show "last_used (bs ! (r - Suc i)) \<le> last_used ((b # bs) ! j)"
          using move(3,4) by (cases j) simp_all
      qed
      have less: "\<forall>j<Suc (r - Suc i). last_used (bs ! (r - Suc i)) < last_used ((b # bs) ! j)"
      proof (intro allI impI)
        fix j assume "j < Suc (r - Suc i)"
        then show "last_used (bs ! (r - Suc i)) < last_used ((b # bs) ! j)"
          using move(3,5) by (cases j) simp_all
      qed
      from lt move(3) have "\<forall>m. mu = Some m \<longrightarrow> last_used (bs ! (r - Suc i)) < m"
        by auto
      with move(1,2) le less show ?thesis unfolding idx by simp
    qed
    then show ?thesis unfolding r_def [symmetric] by blast
  next
    case False
    then obtain m where mu: "mu = Some m" and ge: "m \<le> last_used b"
      by (auto split: option.splits)
    have r: "r = lru_scan bs (Suc i) (Some m) mi"
      using vb False mu by (simp add: r_def)
    from Cons.IH [OF vbs, of "Suc i" "Some m" mi]
    consider (keep) "r = mi" "\<forall>b'\<in>set bs. m \<le> last_used b'"
      | (move) "Suc i \<le> r" "r < Suc i + length bs"
          "last_used (bs ! (r - Suc i)) < m"
          "\<forall>j<length bs. last_used (bs ! (r - Suc i)) \<le> last_used (bs ! j)"
          "\<forall>j<r - Suc i. last_used (bs ! (r - Suc i)) < last_used (bs ! j)"
      unfolding r [symmetric] by auto
    then show ?thesis
    proof cases
      case keep
      with ge mu show ?thesis unfolding r_def [symmetric] by simp
    next
      case move
      from move(1) have idx: "r - i = Suc (r - Suc i)" by simp
      have le: "\<forall>j<length (b # bs). last_used (bs ! (r - Suc i)) \<le> last_used ((b # bs) ! j)"
      proof (intro allI impI)
        fix j assume "j < length (b # bs)"
        then show "last_used (bs ! (r - Suc i)) \<le> last_used ((b # bs) ! j)"
          using move(3,4) ge by (cases j) simp_all
      qed
      have less: "\<forall>j<Suc (r - Suc i). last_used (bs ! (r - Suc i)) < last_used ((b # bs) ! j)"
      proof (intro allI impI)
        fix j assume "j < Suc (r - Suc i)"
        then show "last_used (bs ! (r - Suc i)) < last_used ((b # bs) ! j)"
          using move(3,5) ge by (cases j) simp_all
      qed
      from move(1,2,3) le less mu show ?thesis
        unfolding r_def [symmetric] idx by simp
    qed
  qed
qed

text \<open>The hit scan, and the two ways a block is overwritten without duplicating a tag.\<close>

lemma list_pos_Inr: "list_pos xs i = Inr k \<Longrightarrow> k < length xs"
  by (auto simp: list_pos_def split: if_splits)

lemma find_hit_None:
  "find_hit ls t n = None \<Longrightarrow> \<forall>b\<in>set ls. \<not> (valid b \<and> tag b = t)"
  by (induction ls arbitrary: n) (auto split: if_splits)

lemma find_hit_Some:
  "find_hit ls t n = Some i \<Longrightarrow> n \<le> i \<and> i < n + length ls"
proof (induction ls arbitrary: n)
  case Nil
  then show ?case by simp
next
  case (Cons b bs)
  show ?case
  proof (cases "valid b \<and> tag b = t")
    case True
    with Cons.prems show ?thesis by simp
  next
    case False
    with Cons.prems have "find_hit bs t (Suc n) = Some i" by auto
    from Cons.IH [OF this] show ?thesis by simp
  qed
qed

lemma nodup_update_same:
  assumes "no_duplicate_tags ls" and "i < length ls"
    and "valid b = valid (ls ! i)" and "tag b = tag (ls ! i)"
  shows "no_duplicate_tags (ls[i := b])"
proof -
  have v: "valid (ls[i := b] ! j) = valid (ls ! j)" if "j < length ls" for j
    using that assms(3) by (cases "j = i") simp_all
  have t: "tag (ls[i := b] ! j) = tag (ls ! j)" if "j < length ls" for j
    using that assms(4) by (cases "j = i") simp_all
  show ?thesis
    using assms(1) unfolding no_duplicate_tags_def by (simp add: v t)
qed

lemma nodup_update_new:
  assumes "no_duplicate_tags ls" and "\<forall>b'\<in>set ls. \<not> (valid b' \<and> tag b' = tag b)"
  shows "no_duplicate_tags (ls[r := b])"
  unfolding no_duplicate_tags_def
proof (intro allI impI)
  fix i j
  assume i: "i < length (ls[r := b])" and j: "j < length (ls[r := b])"
    and h: "valid (ls[r := b] ! i) \<and> valid (ls[r := b] ! j)
            \<and> tag (ls[r := b] ! i) = tag (ls[r := b] ! j)"
  from i j have il: "i < length ls" and jl: "j < length ls" by simp_all
  show "i = j"
  proof (cases "i = r")
    case ir: True
    show ?thesis
    proof (cases "j = r")
      case True
      with ir show ?thesis by simp
    next
      case False
      with ir h il jl have "valid (ls ! j) \<and> tag (ls ! j) = tag b" by simp
      with assms(2) jl show ?thesis using nth_mem by blast
    qed
  next
    case inr: False
    show ?thesis
    proof (cases "j = r")
      case True
      with inr h il jl have "valid (ls ! i) \<and> tag (ls ! i) = tag b" by simp
      with assms(2) il show ?thesis using nth_mem by blast
    next
      case False
      with inr h il jl assms(1) show ?thesis
        unfolding no_duplicate_tags_def by simp
    qed
  qed
qed

lemma sets_ok_put_block:
  assumes "sets_ok c" and "k < length (sets c) \<Longrightarrow> no_duplicate_tags ((lines (sets c ! k))[i := b])"
  shows "sets_ok (put_block c k i b)"
proof (cases "k < length (sets c)")
  case True
  have "set ((sets c)[k := (sets c ! k)\<lparr>lines := (lines (sets c ! k))[i := b]\<rparr>])
        \<subseteq> insert ((sets c ! k)\<lparr>lines := (lines (sets c ! k))[i := b]\<rparr>) (set (sets c))"
    by (rule set_update_subset_insert)
  with assms True show ?thesis
    by (auto simp: sets_ok_def put_block_def)
next
  case False
  with assms(1) show ?thesis by (simp add: sets_ok_def put_block_def list_update_beyond)
qed

lemma install_sets_ok:
  assumes "sets_ok c" and "sets c3 = sets c"
    and "\<forall>b'\<in>set (lines (sets c ! k)). \<not> (valid b' \<and> tag b' = tag b)"
  shows "sets_ok (put_block c3 k r b)"
proof -
  have ok: "sets_ok c3" using assms(1,2) by (simp add: sets_ok_def)
  show ?thesis
  proof (rule sets_ok_put_block [OF ok])
    assume "k < length (sets c3)"
    then have "no_duplicate_tags (lines (sets c ! k))"
      using assms(1,2) by (simp add: sets_ok_def)
    then show "no_duplicate_tags ((lines (sets c3 ! k))[r := b])"
      unfolding assms(2) using assms(3) by (rule nodup_update_new)
  qed
qed

lemma sets_ok_nth: "sets_ok c \<Longrightarrow> k < length (sets c) \<Longrightarrow> no_duplicate_tags (lines (sets c ! k))"
  by (simp add: sets_ok_def)

lemma read_hit_sets_ok:
  assumes "sets_ok c" and "i < length (lines (sets c ! k))"
  shows "sets_ok (read_hit c k i)"
proof -
  let ?c2 = "c\<lparr>total_hits := total_hits c + 1, access_count := access_count c + 1\<rparr>"
  have ok: "sets_ok ?c2" using assms(1) by (simp add: sets_ok_def)
  have "sets_ok (put_block ?c2 k i ((lines (sets ?c2 ! k) ! i)\<lparr>last_used := access_count ?c2\<rparr>))"
  proof (rule sets_ok_put_block [OF ok])
    assume "k < length (sets ?c2)"
    then have "no_duplicate_tags (lines (sets c ! k))"
      using assms(1) by (simp add: sets_ok_nth)
    then have "no_duplicate_tags ((lines (sets c ! k))
        [i := (lines (sets c ! k) ! i)\<lparr>last_used := access_count ?c2\<rparr>])"
      by (rule nodup_update_same) (simp_all add: assms(2))
    then show "no_duplicate_tags ((lines (sets ?c2 ! k))
        [i := (lines (sets ?c2 ! k) ! i)\<lparr>last_used := access_count ?c2\<rparr>])"
      by simp
  qed
  then show ?thesis by (simp add: read_hit_def Let_def)
qed

lemma write_hit_sets_ok:
  assumes "sets_ok c" and "i < length (lines (sets c ! k))"
  shows "sets_ok (write_hit c k i)"
proof -
  let ?c2 = "c\<lparr>total_hits := total_hits c + 1, access_count := access_count c + 1\<rparr>"
  let ?c3 = "?c2\<lparr>bytes_to_memory := bytes_to_memory ?c2 + 4\<rparr>"
  let ?b = "(lines (sets c ! k) ! i)\<lparr>last_used := access_count ?c2\<rparr>"
  have ok: "sets_ok ?c2" "sets_ok ?c3" using assms(1) by (simp_all add: sets_ok_def)
  have nd: "no_duplicate_tags ((lines (sets c ! k))[i := b'])"
    if "k < length (sets c)" "valid b' = valid (lines (sets c ! k) ! i)"
       "tag b' = tag (lines (sets c ! k) ! i)" for b'
    using sets_ok_nth [OF assms(1) that(1)] that(2,3) assms(2)
    by (intro nodup_update_same) simp_all
  have 1: "sets_ok (put_block ?c2 k i (?b\<lparr>dirty := True\<rparr>))"
    by (rule sets_ok_put_block [OF ok(1)]) (simp add: nd)
  have 2: "sets_ok (put_block ?c3 k i ?b)"
    by (rule sets_ok_put_block [OF ok(2)]) (simp add: nd)
  from 1 2 show ?thesis by (simp add: write_hit_def Let_def)
qed

lemma read_miss_sets_ok:
  assumes "sets_ok c" and "find_hit (lines (sets c ! k)) t 0 = None"
    and "read_miss c si k t = Inr c'"
  shows "sets_ok c'"
  using assms(3) find_hit_None [OF assms(2)]
  by (auto simp: read_miss_def Let_def and_then_Inr split: if_splits
           intro!: install_sets_ok [OF assms(1)])

lemma write_miss_sets_ok:
  assumes "sets_ok c" and "find_hit (lines (sets c ! k)) t 0 = None"
    and "write_miss c si k t = Inr c'"
  shows "sets_ok c'"
  using assms(3) find_hit_None [OF assms(2)]
  by (auto simp: write_miss_def Let_def and_then_Inr split: if_splits
           intro!: install_sets_ok [OF assms(1)])

lemma read_sets_ok:
  assumes "sets_ok c" and "read c a = Inr (h, c')"
  shows "sets_ok c'"
  using assms(2)
proof (cases rule: read_cases)
  case (hit si t k i)
  from find_hit_Some [OF hit(2)] have "i < length (lines (sets c ! k))" by simp
  moreover have "sets_ok (c\<lparr>total_requests := total_requests c + 1\<rparr>)"
    using assms(1) by (simp add: sets_ok_def)
  ultimately show ?thesis unfolding hit(4) by (intro read_hit_sets_ok) simp_all
next
  case (miss si t k)
  have "sets_ok (c\<lparr>total_requests := total_requests c + 1\<rparr>)"
    using assms(1) by (simp add: sets_ok_def)
  then show ?thesis
    by (rule read_miss_sets_ok [OF _ _ miss(4)]) (simp add: miss(2))
qed

lemma write_sets_ok:
  assumes "sets_ok c" and "write c a = Inr (h, c')"
  shows "sets_ok c'"
  using assms(2)
proof (cases rule: write_cases)
  case (hit si t k i)
  from find_hit_Some [OF hit(2)] have "i < length (lines (sets c ! k))" by simp
  moreover have "sets_ok (c\<lparr>total_requests := total_requests c + 1\<rparr>)"
    using assms(1) by (simp add: sets_ok_def)
  ultimately show ?thesis unfolding hit(4) by (intro write_hit_sets_ok) simp_all
next
  case (miss si t k)
  have "sets_ok (c\<lparr>total_requests := total_requests c + 1\<rparr>)"
    using assms(1) by (simp add: sets_ok_def)
  then show ?thesis
    by (rule write_miss_sets_ok [OF _ _ miss(4)]) (simp add: miss(2))
qed

lemma Cache_init_sets_ok:
  assumes "Cache_init cs bs wp pt = Inr c"
  shows "sets_ok c"
  unfolding sets_ok_def Cache_init_Inr(10) [OF assms]
  by (simp add: Set_init_def no_duplicate_tags_def Block_def)

section \<open>Every call returns\<close>

text \<open>
  A cache constructed with a positive \<open>cache_size\<close> is \<open>shaped\<close>; \<open>read\<close> and \<open>write\<close>
  return on a shaped cache and leave it shaped, so no call of a run raises. (With a
  negative \<open>cache_size\<close> a fully-associative cache is constructed with a set of no ways,
  and its first call raises \<open>IndexError\<close>.)
\<close>

lemma floor_log2_le: "0 < n \<Longrightarrow> 2 ^ floor_log2 n \<le> n"
proof (induction n rule: floor_log2.induct)
  case (1 n)
  show ?case
  proof (cases "n < 2")
    case True
    with "1.prems" show ?thesis by (simp add: floor_log2.simps [of n])
  next
    case False
    then have "0 < n div 2" by simp
    from "1.IH" [OF False this] have "2 * 2 ^ floor_log2 (n div 2) \<le> 2 * (n div 2)"
      by simp
    also have "\<dots> \<le> n" by simp
    finally show ?thesis using False by (simp add: floor_log2.simps [of n])
  qed
qed

lemma Cache_init_shaped:
  assumes "Cache_init cs bs wp pt = Inr c" and "0 < cs"
  shows "shaped c"
proof -
  note f = Cache_init_Inr [OF assms(1)]
  have ns: "0 < num_sets c"
  proof (cases "pt = Fully_Associative")
    case True
    from f(16) [OF True] f(14) show ?thesis by (simp add: f(15) f(11))
  next
    case False
    from f(22) [OF False] show ?thesis by simp
  qed
  have pw: "(2 :: int) ^ nat (set_bits c) \<le> int (length (sets c))"
    if "pt \<noteq> Fully_Associative"
  proof -
    from f(22) [OF that] have sb: "nat (set_bits c) = floor_log2 (nat (num_sets c))" by simp
    from ns have "2 ^ floor_log2 (nat (num_sets c)) \<le> nat (num_sets c)"
      by (intro floor_log2_le) simp
    then have "(2 :: int) ^ floor_log2 (nat (num_sets c)) \<le> int (nat (num_sets c))"
      by (metis of_nat_le_iff of_nat_numeral of_nat_power)
    then show ?thesis by (simp add: sb f(10))
  qed
  have nw: "0 < num_ways c"
  proof (cases "pt = Fully_Associative")
    case True
    from assms(2) f(18) have "0 \<le> cs div bs" by (simp add: pos_imp_zdiv_nonneg_iff)
    with f(16) [OF True] f(14) show ?thesis by simp
  next
    case False
    from f(17) [OF False] show ?thesis by auto
  qed
  have ln: "\<forall>s\<in>set (sets c). lines s \<noteq> []"
    using nw by (auto simp: f(10) Set_init_def)
  have s: "sets c \<noteq> []" using ns by (simp add: f(10))
  from f(19,20,21) s pw ln show ?thesis
    by (simp add: shaped_def f(4))
qed

lemma find_lru_less: "ls \<noteq> [] \<Longrightarrow> find_lru ls < length ls"
proof (cases "\<exists>b\<in>set ls. \<not> valid b")
  case True
  from lru_scan_invalid [OF True, of 0 None 0] show ?thesis by (simp add: find_lru_def)
next
  case False
  assume "ls \<noteq> []"
  moreover from False have "\<forall>b\<in>set ls. valid b" by simp
  from lru_scan_valid [OF this, of 0 None 0] have
    "(\<forall>b\<in>set ls. False) \<or> find_lru ls < length ls" by (auto simp: find_lru_def)
  ultimately show ?thesis by (cases ls) auto
qed

lemma get_block_index_ok:
  assumes "shaped c"
  shows "\<exists>si. get_block_index c a = Inr si \<and> 0 \<le> si \<and> si < int (length (sets c))"
proof (cases "placement_type c = Fully_Associative")
  case True
  with assms show ?thesis by (simp add: get_block_index_def shaped_def)
next
  case False
  let ?m = "(2 :: int) ^ nat (set_bits c) - 1"
  let ?hi = "drop_bit (nat (offset_bits c)) a"
  have m: "0 \<le> ?m" by simp
  have eq: "get_block_index c a = Inr (?hi AND ?m)"
    using assms False
    by (simp add: get_block_index_def shaped_def rshift_def lshift_def and_then_def)
  have "?hi AND ?m \<le> ?m" using m by (rule AND_upper2)
  moreover have "0 \<le> ?hi AND ?m" using m by simp
  moreover have "(2 :: int) ^ nat (set_bits c) \<le> int (length (sets c))"
    using assms False unfolding shaped_def by blast
  then have "?m < int (length (sets c))" by linarith
  ultimately show ?thesis using eq by auto
qed

lemma get_tag_ok: "shaped c \<Longrightarrow> \<exists>t. get_tag c a = Inr t"
  by (simp add: get_tag_def rshift_def shaped_def)

lemma list_pos_ok: "0 \<le> i \<Longrightarrow> i < int (length xs) \<Longrightarrow> list_pos xs i = Inr (nat i)"
  by (simp add: list_pos_def)

lemma put_block_shape:
  "map (\<lambda>s. length (lines s)) (sets (put_block c k i b))
   = map (\<lambda>s. length (lines s)) (sets c)"
proof (cases "k < length (sets c)")
  case True
  then have "(map (\<lambda>s. length (lines s)) (sets c))[k := length (lines (sets c ! k))]
             = map (\<lambda>s. length (lines s)) (sets c)"
    by (metis list_update_id nth_map)
  then show ?thesis by (simp add: put_block_def map_update)
next
  case False
  then show ?thesis by (simp add: put_block_def list_update_beyond)
qed

lemma shaped_cong:
  assumes "shaped c" and "geometry c' = geometry c"
    and "map (\<lambda>s. length (lines s)) (sets c') = map (\<lambda>s. length (lines s)) (sets c)"
  shows "shaped c'"
proof -
  from assms(3) have len: "length (sets c') = length (sets c)"
    by (metis length_map)
  have "lines s \<noteq> []" if "s \<in> set (sets c')" for s
  proof -
    from that have "length (lines s) \<in> set (map (\<lambda>s. length (lines s)) (sets c'))"
      by (rule imageI [of s "set (sets c')" "\<lambda>s. length (lines s)", unfolded set_map [symmetric]])
    then obtain s0 where "s0 \<in> set (sets c)" "length (lines s) = length (lines s0)"
      unfolding assms(3) by auto
    with assms(1) show ?thesis by (auto simp: shaped_def)
  qed
  with assms(1,2) len show ?thesis
    by (auto simp: shaped_def geometry_def)
qed

lemma read_shape:
  assumes "read c a = Inr (h, c')"
  shows "map (\<lambda>s. length (lines s)) (sets c') = map (\<lambda>s. length (lines s)) (sets c)"
  using assms
proof (cases rule: read_cases)
  case (hit si t k i)
  then show ?thesis by (simp add: read_hit_def Let_def put_block_shape)
next
  case (miss si t k)
  from miss(4) show ?thesis
    by (auto simp: read_miss_def Let_def and_then_Inr put_block_shape split: if_splits)
qed

lemma write_shape:
  assumes "write c a = Inr (h, c')"
  shows "map (\<lambda>s. length (lines s)) (sets c') = map (\<lambda>s. length (lines s)) (sets c)"
  using assms
proof (cases rule: write_cases)
  case (hit si t k i)
  then show ?thesis by (simp add: write_hit_def Let_def put_block_shape)
next
  case (miss si t k)
  from miss(4) show ?thesis
    by (auto simp: write_miss_def Let_def and_then_Inr put_block_shape split: if_splits)
qed

lemma read_shaped: "shaped c \<Longrightarrow> read c a = Inr (h, c') \<Longrightarrow> shaped c'"
  by (erule shaped_cong) (simp_all add: read_step(6) read_shape)

lemma write_shaped: "shaped c \<Longrightarrow> write c a = Inr (h, c') \<Longrightarrow> shaped c'"
  by (erule shaped_cong) (simp_all add: write_step(6) write_shape)

lemma access_total:
  assumes "shaped c"
  shows "\<exists>h c'. read c a = Inr (h, c')" and "\<exists>h c'. write c a = Inr (h, c')"
proof -
  define c1 where "c1 = c\<lparr>total_requests := total_requests c + 1\<rparr>"
  have sh: "shaped c1" using assms by (simp add: shaped_def c1_def)
  from get_block_index_ok [OF sh, of a] obtain si where
    si: "get_block_index c1 a = Inr si" "0 \<le> si" "si < int (length (sets c1))" by blast
  from get_tag_ok [OF sh, of a] obtain t where t: "get_tag c1 a = Inr t" by blast
  define k where "k = nat si"
  have pos: "list_pos (sets c1) si = Inr k"
    unfolding k_def using si(2,3) by (rule list_pos_ok)
  have k: "k < length (sets c1)" using si(2,3) by (simp add: k_def)
  define ls where "ls = lines (sets c1 ! k)"
  have ne: "ls \<noteq> []" using sh k by (simp add: ls_def shaped_def)
  have lru: "find_lru ls < length ls" using ne by (rule find_lru_less)
  have rm: "\<exists>c'. read_miss c1 si k t = Inr c'"
    using pos lru
    by (simp add: read_miss_def Let_def find_lru_block_def and_then_def ls_def)
  have wm: "\<exists>c'. write_miss c1 si k t = Inr c'"
    using pos lru
    by (simp add: write_miss_def Let_def find_lru_block_def and_then_def ls_def)
  have r: "read c a = (case find_hit ls t 0 of
          Some i \<Rightarrow> Inr (True, read_hit c1 k i)
        | None \<Rightarrow> and_then (read_miss c1 si k t) (\<lambda>c'. Inr (False, c')))"
    unfolding read_def Let_def c1_def [symmetric]
    by (simp add: si(1) t pos and_then_def ls_def)
  have w: "write c a = (case find_hit ls t 0 of
          Some i \<Rightarrow> Inr (True, write_hit c1 k i)
        | None \<Rightarrow> and_then (write_miss c1 si k t) (\<lambda>c'. Inr (False, c')))"
    unfolding write_def Let_def c1_def [symmetric]
    by (simp add: si(1) t pos and_then_def ls_def)
  show "\<exists>h c'. read c a = Inr (h, c')"
    using rm unfolding r by (cases "find_hit ls t 0") (auto simp: and_then_def)
  show "\<exists>h c'. write c a = Inr (h, c')"
    using wm unfolding w by (cases "find_hit ls t 0") (auto simp: and_then_def)
qed

lemma run_total: "shaped c \<Longrightarrow> \<exists>c'. run c calls = Inr c'"
proof (induction calls arbitrary: c)
  case Nil
  show ?case by simp
next
  case (Cons x xs)
  show ?case
  proof (cases x)
    case (Read a)
    from access_total(1) [OF Cons.prems, of a] obtain h c1 where
      s: "read c a = Inr (h, c1)" by blast
    from Cons.IH [OF read_shaped [OF Cons.prems s]] s Read show ?thesis
      by (simp add: and_then_def)
  next
    case (Write a)
    from access_total(2) [OF Cons.prems, of a] obtain h c1 where
      s: "write c a = Inr (h, c1)" by blast
    from Cons.IH [OF write_shaped [OF Cons.prems s]] s Write show ?thesis
      by (simp add: and_then_def)
  qed
qed

lemma constructed_run_total:
  assumes "Cache_init cs bs wp pt = Inr c" and "0 < cs"
  shows "\<exists>c'. run c calls = Inr c'" and "\<exists>c'. replay c ops = Inr c'"
  using run_total [OF Cache_init_shaped [OF assms]] by (simp_all add: replay_run)

lemma run_shaped: "shaped c \<Longrightarrow> run c calls = Inr c' \<Longrightarrow> shaped c'"
  by (rule run_invariant [where P = shaped]) (auto intro: read_shaped write_shaped)

section \<open>Results\<close>

text \<open>
  Claim C1 (traffic accounting). In every state that a sequence of \<open>read\<close> and
  \<open>write\<close> calls reaches from a freshly constructed cache, \<open>bytes_to_cache\<close> equals
  \<open>(total_requests - total_hits) * block_size\<close>; a call that misses adds exactly
  \<open>block_size\<close> to the counter and a call that hits leaves it as it is.
\<close>

theorem traffic_accounting:
  assumes "Cache_init cs bs wp pt = Inr c0" and "run c0 calls = Inr c"
  shows "bytes_to_cache c = (total_requests c - total_hits c) * block_size c
       \<and> (\<forall>a h c'. read c a = Inr (h, c') \<longrightarrow>
            bytes_to_cache c' = bytes_to_cache c + (if h then 0 else block_size c))
       \<and> (\<forall>a h c'. write c a = Inr (h, c') \<longrightarrow>
            bytes_to_cache c' = bytes_to_cache c + (if h then 0 else block_size c))"
proof -
  let ?P = "\<lambda>c. bytes_to_cache c = (total_requests c - total_hits c) * block_size c"
  have init: "?P c0"
    using Cache_init_Inr [OF assms(1)] by simp
  have rd: "?P c'" if "?P c" "read c a = Inr (h, c')" for c a h c'
  proof -
    from read_step(6) [OF that(2)] have "block_size c' = block_size c"
      by (simp add: geometry_def)
    with read_step(1-3) [OF that(2)] that(1) show ?thesis
      by (simp add: algebra_simps)
  qed
  have wr: "?P c'" if "?P c" "write c a = Inr (h, c')" for c a h c'
  proof -
    from write_step(6) [OF that(2)] have "block_size c' = block_size c"
      by (simp add: geometry_def)
    with write_step(1-3) [OF that(2)] that(1) show ?thesis
      by (simp add: algebra_simps)
  qed
  have "?P c"
    by (rule run_invariant [where P = ?P, OF assms(2) init]) (erule (1) rd, erule (1) wr)
  then show ?thesis
    using read_step(3) write_step(3) by blast
qed

theorem traffic_accounting_witness:
  "\<exists>c0 c. Cache_init 8 4 WB Direct_Mapped = Inr c0
     \<and> run c0 [Read 0, Write 8, Read 8, Write 32] = Inr c
     \<and> bytes_to_cache c = (total_requests c - total_hits c) * block_size c
     \<and> bytes_to_cache c = 12"
proof -
  let ?start = "projr (Cache_init 8 4 WB Direct_Mapped)"
  let ?final = "projr (run ?start [Read 0, Write 8, Read 8, Write 32])"
  have 1: "Cache_init 8 4 WB Direct_Mapped = Inr ?start" by (rule Inr_projr) code_simp
  have 2: "run ?start [Read 0, Write 8, Read 8, Write 32] = Inr ?final" by (rule Inr_projr) code_simp
  have 3: "bytes_to_cache ?final = 12" by code_simp
  from traffic_accounting [OF 1 2] 1 2 3 show ?thesis by blast
qed

text \<open>
  Claim C9 (logical clock), as stated: every single call to \<open>read\<close> and to \<open>write\<close>
  advances \<open>access_count\<close> by exactly one, so that \<open>access_count = total_requests\<close> in
  every state. The constructor rejects a \<open>cache_size\<close> of 0 only (its message reads
  "Cache size must be greater than zero."): with \<open>cache_size = -8\<close>, \<open>block_size = 4\<close> and
  fully-associative placement it builds a cache whose one set has no ways. On that cache
  every call raises \<open>IndexError\<close> where it reads the block to replace, after
  \<open>total_requests += 1\<close> and before \<open>access_count += 1\<close>: the call has not advanced
  \<open>access_count\<close>.
\<close>

theorem access_count_clock_counterexample:
  "\<not> isl (Cache_init (- 8) 4 WB Fully_Associative)
   \<and> sets (projr (Cache_init (- 8) 4 WB Fully_Associative)) = [\<lparr>lines = []\<rparr>]
   \<and> access_count (projr (Cache_init (- 8) 4 WB Fully_Associative)) = 0
   \<and> read (projr (Cache_init (- 8) 4 WB Fully_Associative)) 0 = Inl IndexError
   \<and> write (projr (Cache_init (- 8) 4 WB Fully_Associative)) 0 = Inl IndexError"
  by code_simp

text \<open>
  Claim C9, amended. For a cache constructed with \<open>cache_size > 0\<close>, every sequence of
  \<open>read\<close> and \<open>write\<close> calls returns, and in the state it reaches
  \<open>access_count = total_requests\<close>; every further call to \<open>read\<close> and every further call
  to \<open>write\<close> returns and has advanced \<open>access_count\<close> by exactly one (once, on the hit
  path or on the miss path), so the counter grows strictly from request to request.
\<close>

theorem access_count_clock:
  assumes "Cache_init cs bs wp pt = Inr c0" and "0 < cs"
  shows "\<exists>c. run c0 calls = Inr c
       \<and> access_count c = total_requests c
       \<and> (\<forall>a. \<exists>h c'. read c a = Inr (h, c') \<and> access_count c' = access_count c + 1
                      \<and> total_requests c' = total_requests c + 1)
       \<and> (\<forall>a. \<exists>h c'. write c a = Inr (h, c') \<and> access_count c' = access_count c + 1
                      \<and> total_requests c' = total_requests c + 1)"
proof -
  have sh0: "shaped c0" using assms by (rule Cache_init_shaped)
  from run_total [OF sh0] obtain c where r: "run c0 calls = Inr c" by blast
  have sh: "shaped c" using sh0 r by (rule run_shaped)
  let ?P = "\<lambda>c. access_count c = total_requests c"
  have init: "?P c0"
    using Cache_init_Inr [OF assms(1)] by simp
  have inv: "?P c"
    by (rule run_invariant [where P = ?P, OF r init])
       (simp_all add: read_step write_step)
  have rd: "\<exists>h c'. read c a = Inr (h, c') \<and> access_count c' = access_count c + 1
              \<and> total_requests c' = total_requests c + 1" for a
  proof -
    from access_total(1) [OF sh, of a] obtain h c' where s: "read c a = Inr (h, c')"
      by blast
    with read_step(1,4) [OF s] show ?thesis by blast
  qed
  have wr: "\<exists>h c'. write c a = Inr (h, c') \<and> access_count c' = access_count c + 1
              \<and> total_requests c' = total_requests c + 1" for a
  proof -
    from access_total(2) [OF sh, of a] obtain h c' where s: "write c a = Inr (h, c')"
      by blast
    with write_step(1,4) [OF s] show ?thesis by blast
  qed
  from r inv rd wr show ?thesis by blast
qed

theorem access_count_clock_witness:
  "\<exists>c0 c. Cache_init 16 4 WT Two_Way = Inr c0 \<and> (0 :: int) < 16
     \<and> run c0 [Read 0, Read 0, Write 64, Read 128] = Inr c
     \<and> access_count c = total_requests c \<and> access_count c = 4"
proof -
  define start where "start = projr (Cache_init 16 4 WT Two_Way)"
  define final where "final = projr (run start [Read 0, Read 0, Write 64, Read 128])"
  have 1: "Cache_init 16 4 WT Two_Way = Inr start"
    unfolding start_def by (rule Inr_projr) code_simp
  have 2: "run start [Read 0, Read 0, Write 64, Read 128] = Inr final"
    unfolding final_def start_def by (rule Inr_projr) code_simp
  have 3: "access_count final = 4"
    unfolding final_def start_def by code_simp
  have p: "(0 :: int) < 16" by simp
  from access_count_clock [OF 1 p, of "[Read 0, Read 0, Write 64, Read 128]"]
  have 4: "access_count final = total_requests final"
    unfolding 2 by simp
  show ?thesis
    by (rule exI [of _ start], rule exI [of _ final]) (intro conjI 1 2 3 4 p)
qed

text \<open>
  Claim C7 (hit rate). \<open>get_hit_rate\<close> never raises \<open>ZeroDivisionError\<close>, whatever the
  state of the cache: the division is reached only with \<open>total_requests\<close> other than 0.
  In every state reached from a freshly constructed cache it returns the quotient
  \<open>total_hits / total_requests\<close> when there has been a request and 0 when there has been
  none, and the value lies between 0 and 1, because \<open>total_hits\<close> is never negative and
  never exceeds \<open>total_requests\<close>.
\<close>

theorem hit_rate_bounds:
  assumes "Cache_init cs bs wp pt = Inr c0" and "run c0 calls = Inr c"
  shows "(\<forall>x. \<not> isl (get_hit_rate x))
       \<and> (\<exists>r. get_hit_rate c = Inr r
            \<and> (0 < total_requests c \<longrightarrow>
                 r = rat_of_int (total_hits c) / rat_of_int (total_requests c))
            \<and> (total_requests c = 0 \<longrightarrow> r = 0)
            \<and> 0 \<le> r \<and> r \<le> 1)
       \<and> 0 \<le> total_hits c \<and> total_hits c \<le> total_requests c"
proof -
  let ?P = "\<lambda>c. 0 \<le> total_hits c \<and> total_hits c \<le> total_requests c"
  have init: "?P c0"
    using Cache_init_Inr [OF assms(1)] by simp
  have inv: "?P c"
    by (rule run_invariant [where P = ?P, OF assms(2) init])
       (simp_all add: read_step write_step)
  have total: "\<not> isl (get_hit_rate x)" for x
    by (simp add: get_hit_rate_def truediv_def)
  define r where "r = (if total_requests c = 0 then 0
    else rat_of_int (total_hits c) / rat_of_int (total_requests c))"
  have eq: "get_hit_rate c = Inr r"
    by (simp add: get_hit_rate_def truediv_def r_def)
  have bounds: "0 \<le> r" "r \<le> 1"
    using inv by (simp_all add: r_def divide_le_eq_1)
  have q: "0 < total_requests c \<longrightarrow>
             r = rat_of_int (total_hits c) / rat_of_int (total_requests c)"
    "total_requests c = 0 \<longrightarrow> r = 0"
    by (simp_all add: r_def)
  from total eq q bounds inv show ?thesis by blast
qed

theorem hit_rate_bounds_witness:
  "\<exists>c0 c. Cache_init 16 4 WB Fully_Associative = Inr c0
     \<and> run c0 [] = Inr c0 \<and> total_requests c0 = 0 \<and> get_hit_rate c0 = Inr 0
     \<and> run c0 [Read 0, Read 0, Write 64, Read 0] = Inr c
     \<and> total_hits c = 2 \<and> total_requests c = 4
     \<and> get_hit_rate c = Inr (1 / 2)
     \<and> \<not> isl (get_hit_rate c0) \<and> \<not> isl (get_hit_rate c)"
proof -
  define start where "start = projr (Cache_init 16 4 WB Fully_Associative)"
  define final where "final = projr (run start [Read 0, Read 0, Write 64, Read 0])"
  have 1: "Cache_init 16 4 WB Fully_Associative = Inr start"
    unfolding start_def by (rule Inr_projr) code_simp
  have 2: "run start [Read 0, Read 0, Write 64, Read 0] = Inr final"
    unfolding final_def start_def by (rule Inr_projr) code_simp
  have 0: "run start [] = Inr start" by simp
  have z: "total_requests start = 0" unfolding start_def by code_simp
  have n: "total_hits final = 2" "total_requests final = 4"
    unfolding final_def start_def by code_simp+
  from hit_rate_bounds [OF 1 0] z have a: "get_hit_rate start = Inr 0" by auto
  from hit_rate_bounds [OF 1 2] n have b: "get_hit_rate final = Inr (1 / 2)" by auto
  from hit_rate_bounds [OF 1 2] have t: "\<not> isl (get_hit_rate start)" "\<not> isl (get_hit_rate final)"
    by blast+
  show ?thesis
    by (rule exI [of _ start], rule exI [of _ final]) (intro conjI 1 2 0 z n a b t)
qed



text \<open>
  Claim C6 (no duplicate resident tags). In every state reached from a freshly
  constructed cache no set holds two valid blocks with the same tag, and every \<open>read\<close>
  and every \<open>write\<close> that returns keeps it so.
\<close>

theorem no_duplicate_resident_tags:
  assumes "Cache_init cs bs wp pt = Inr c0" and "run c0 calls = Inr c"
  shows "sets_ok c
       \<and> (\<forall>a h c'. read c a = Inr (h, c') \<longrightarrow> sets_ok c')
       \<and> (\<forall>a h c'. write c a = Inr (h, c') \<longrightarrow> sets_ok c')"
proof -
  have "sets_ok c"
    by (rule run_invariant [where P = sets_ok, OF assms(2) Cache_init_sets_ok [OF assms(1)]])
       (erule (1) read_sets_ok, erule (1) write_sets_ok)
  then show ?thesis
    using read_sets_ok write_sets_ok by blast
qed

theorem no_duplicate_resident_tags_witness:
  "\<exists>c0 c. Cache_init 16 4 WB Two_Way = Inr c0
     \<and> run c0 [Read 0, Write 8, Read 0, Write 16, Read 8] = Inr c
     \<and> sets_ok c
     \<and> map (\<lambda>s. map (\<lambda>b. (valid b, tag b)) (lines s)) (sets c)
         = [[(True, 1), (True, 2)], [(False, 0), (False, 0)]]"
proof -
  define start where "start = projr (Cache_init 16 4 WB Two_Way)"
  define final where "final = projr (run start [Read 0, Write 8, Read 0, Write 16, Read 8])"
  have 1: "Cache_init 16 4 WB Two_Way = Inr start"
    unfolding start_def by (rule Inr_projr) code_simp
  have 2: "run start [Read 0, Write 8, Read 0, Write 16, Read 8] = Inr final"
    unfolding final_def start_def by (rule Inr_projr) code_simp
  have 3: "map (\<lambda>s. map (\<lambda>b. (valid b, tag b)) (lines s)) (sets final)
         = [[(True, 1), (True, 2)], [(False, 0), (False, 0)]]"
    unfolding final_def start_def by code_simp
  from no_duplicate_resident_tags [OF 1 2] have 4: "sets_ok final" by (rule conjunct1)
  show ?thesis
    by (rule exI [of _ start], rule exI [of _ final]) (intro conjI 1 2 3 4)
qed

lemma read_not_write: "is_read_op s \<Longrightarrow> \<not> is_write_op s"
  by (auto simp: is_read_op_def is_write_op_def)

lemma replay_write_through:
  assumes "write_policy c \<noteq> WB" and "replay c ops = Inr c'"
  shows "bytes_to_memory c' =
           bytes_to_memory c + 4 * int (length (filter (\<lambda>op. is_write_op (fst op)) ops))"
  using assms
proof (induction ops arbitrary: c)
  case Nil
  then show ?case by simp
next
  case (Cons x xs)
  obtain op_type address where x: "x = (op_type, address)" by (cases x)
  consider (rd) "is_read_op op_type" | (wr) "\<not> is_read_op op_type" "is_write_op op_type"
    | (other) "\<not> is_read_op op_type" "\<not> is_write_op op_type" by blast
  then show ?case
  proof cases
    case rd
    with Cons.prems(2) obtain h c1 where
      s: "read c address = Inr (h, c1)" and r: "replay c1 xs = Inr c'"
      by (auto simp: x and_then_Inr)
    from read_step(6) [OF s] have wp: "write_policy c1 = write_policy c"
      by (simp add: geometry_def)
    from Cons.IH [OF _ r] wp Cons.prems(1) read_step(5) [OF s] read_not_write [OF rd]
    show ?thesis by (simp add: x)
  next
    case wr
    with Cons.prems(2) obtain h c1 where
      s: "write c address = Inr (h, c1)" and r: "replay c1 xs = Inr c'"
      by (auto simp: x and_then_Inr)
    from write_step(6) [OF s] have wp: "write_policy c1 = write_policy c"
      by (simp add: geometry_def)
    from Cons.IH [OF _ r] wp Cons.prems(1) write_step(5) [OF s] wr(2)
    show ?thesis by (simp add: x)
  next
    case other
    with Cons.prems(2) have r: "replay c xs = Inr c'" by (simp add: x)
    from Cons.IH [OF Cons.prems(1) r] other show ?thesis by (simp add: x)
  qed
qed

text \<open>
  Claim C5 (write-through traffic). For a write-through cache, after replaying any
  trace, \<open>bytes_to_memory\<close> is 4 times the number of write operations of the trace
  (\<open>write\<close> and \<open>store\<close>), whether they hit or miss; a \<open>read\<close> call never changes
  \<open>bytes_to_memory\<close> under write-through and a \<open>write\<close> call adds exactly 4.
\<close>

theorem write_through_traffic:
  assumes "Cache_init cs bs WT pt = Inr c0" and "replay c0 ops = Inr c"
  shows "bytes_to_memory c = 4 * int (length (filter (\<lambda>op. is_write_op (fst op)) ops))
       \<and> (\<forall>a h c'. read c a = Inr (h, c') \<longrightarrow> bytes_to_memory c' = bytes_to_memory c)
       \<and> (\<forall>a h c'. write c a = Inr (h, c') \<longrightarrow> bytes_to_memory c' = bytes_to_memory c + 4)"
proof -
  have wt: "write_policy c0 \<noteq> WB"
    using Cache_init_Inr(3) [OF assms(1)] by (simp add: WB_def WT_def)
  have "geometry c = geometry c0"
    using assms(2) unfolding replay_run
    by (rule run_invariant [where P = "\<lambda>c. geometry c = geometry c0"])
       (simp_all add: read_step write_step)
  with wt have wt': "write_policy c \<noteq> WB" by (simp add: geometry_def)
  from replay_write_through [OF wt assms(2)] Cache_init_Inr(8) [OF assms(1)]
  have "bytes_to_memory c = 4 * int (length (filter (\<lambda>op. is_write_op (fst op)) ops))"
    by simp
  then show ?thesis
    using read_step(5) write_step(5) wt' by blast
qed

theorem write_through_traffic_witness:
  "\<exists>c0 c. Cache_init 8 4 WT Direct_Mapped = Inr c0
     \<and> replay c0 [(''write'', 0), (''read'', 0), (''STORE'', 0), (''Write'', 8), (''nop'', 4),
                   (''load'', 16)] = Inr c
     \<and> length (filter (\<lambda>op. is_write_op (fst op))
           [(''write'', 0), (''read'', 0), (''STORE'', 0), (''Write'', 8), (''nop'', 4),
            (''load'', 16 :: int)]) = 3
     \<and> total_hits c = 2
     \<and> bytes_to_memory c = 12"
proof -
  define ops where "ops = [(''write'', 0), (''read'', 0), (''STORE'', 0), (''Write'', 8),
    (''nop'', 4), (''load'', 16 :: int)]"
  define start where "start = projr (Cache_init 8 4 WT Direct_Mapped)"
  define final where "final = projr (replay start ops)"
  have 1: "Cache_init 8 4 WT Direct_Mapped = Inr start"
    unfolding start_def by (rule Inr_projr) code_simp
  have 2: "replay start ops = Inr final"
    unfolding final_def start_def ops_def by (rule Inr_projr) code_simp
  have 3: "length (filter (\<lambda>op. is_write_op (fst op)) ops) = 3"
    unfolding ops_def by code_simp
  have 4: "total_hits final = 2"
    unfolding final_def start_def ops_def by code_simp
  from write_through_traffic [OF 1 2] 3 have 5: "bytes_to_memory final = 12" by simp
  show ?thesis
    unfolding ops_def [symmetric]
    by (rule exI [of _ start], rule exI [of _ final]) (intro conjI 1 2 3 4 5)
qed

lemma run_geometry: "run c calls = Inr c' \<Longrightarrow> geometry c' = geometry c"
  by (rule run_invariant [where P = "\<lambda>x. geometry x = geometry c"])
     (simp_all add: read_step write_step)

text \<open>
  Claim C4 (geometry), as stated: every constructed cache that is not fully associative
  has \<open>num_sets * num_ways * block_size = cache_size\<close>. The constructor accepts a cache
  size that is not a multiple of \<open>num_ways * block_size\<close>, and the floor divisions then
  lose the remainder: a two-way cache of 12 bytes with 4-byte blocks has one set, and
  1 * 2 * 4 is 8.
\<close>

theorem geometry_product_counterexample:
  "\<not> isl (Cache_init 12 4 WB Two_Way)
   \<and> Two_Way \<noteq> Fully_Associative
   \<and> num_sets (projr (Cache_init 12 4 WB Two_Way)) = 1
   \<and> num_ways (projr (Cache_init 12 4 WB Two_Way)) = 2
   \<and> block_size (projr (Cache_init 12 4 WB Two_Way)) = 4
   \<and> num_sets (projr (Cache_init 12 4 WB Two_Way))
       * num_ways (projr (Cache_init 12 4 WB Two_Way))
       * block_size (projr (Cache_init 12 4 WB Two_Way))
     \<noteq> cache_size (projr (Cache_init 12 4 WB Two_Way))"
  by code_simp

text \<open>
  Claim C4, amended. For every constructed cache that is not fully associative and whose
  \<open>cache_size\<close> is a multiple of \<open>num_ways * block_size\<close>, the product
  \<open>num_sets * num_ways * block_size\<close> is \<open>cache_size\<close>; for every constructed
  fully-associative cache, \<open>num_ways\<close> is \<open>cache_size // block_size\<close> and \<open>num_sets\<close>
  is 1. No sequence of \<open>read\<close> and \<open>write\<close> calls changes a geometry field.
\<close>

theorem geometry_invariant:
  assumes "Cache_init cs bs wp pt = Inr c"
  shows "(pt \<noteq> Fully_Associative \<and> num_ways c * block_size c dvd cache_size c \<longrightarrow>
            num_sets c * num_ways c * block_size c = cache_size c)
       \<and> (pt = Fully_Associative \<longrightarrow>
            num_ways c = cache_size c div block_size c \<and> num_sets c = 1)
       \<and> (\<forall>calls c'. run c calls = Inr c' \<longrightarrow> geometry c' = geometry c)"
proof -
  note f = Cache_init_Inr [OF assms]
  have a: "num_sets c * num_ways c * block_size c = cache_size c"
    if d: "num_ways c * block_size c dvd cache_size c"
  proof -
    from d obtain q where q: "cs = num_ways c * bs * q"
      unfolding f(1,2) by (auto simp: dvd_def)
    have "cs div bs = num_ways c * q"
      using f(12) by (simp add: q)
    then have "num_sets c = q"
      using f(14) by (simp add: f(15) f(11))
    then show ?thesis
      by (simp add: f(1,2) q)
  qed
  have b: "num_ways c = cache_size c div block_size c \<and> num_sets c = 1"
    if "pt = Fully_Associative"
    using f(16) [OF that] f(14) by (simp add: f(1,2,11,15))
  from a b run_geometry show ?thesis by blast
qed

theorem geometry_invariant_witness:
  "\<exists>c1 c1' c2. Cache_init 16 4 WB Two_Way = Inr c1
     \<and> Two_Way \<noteq> Fully_Associative
     \<and> num_ways c1 * block_size c1 dvd cache_size c1
     \<and> num_sets c1 * num_ways c1 * block_size c1 = cache_size c1
     \<and> run c1 [Read 0, Write 32, Read 64] = Inr c1'
     \<and> geometry c1' = geometry c1
     \<and> Cache_init 16 4 WT Fully_Associative = Inr c2
     \<and> num_ways c2 = cache_size c2 div block_size c2 \<and> num_ways c2 = 4 \<and> num_sets c2 = 1"
proof -
  define c1 where "c1 = projr (Cache_init 16 4 WB Two_Way)"
  define c1' where "c1' = projr (run c1 [Read 0, Write 32, Read 64])"
  define c2 where "c2 = projr (Cache_init 16 4 WT Fully_Associative)"
  have 1: "Cache_init 16 4 WB Two_Way = Inr c1"
    unfolding c1_def by (rule Inr_projr) code_simp
  have 2: "run c1 [Read 0, Write 32, Read 64] = Inr c1'"
    unfolding c1'_def c1_def by (rule Inr_projr) code_simp
  have 3: "Cache_init 16 4 WT Fully_Associative = Inr c2"
    unfolding c2_def by (rule Inr_projr) code_simp
  have n: "Two_Way \<noteq> Fully_Associative" by code_simp
  have d: "num_ways c1 * block_size c1 dvd cache_size c1"
    unfolding c1_def by code_simp
  have w: "num_ways c2 = 4" unfolding c2_def by code_simp
  from geometry_invariant [OF 1] n d 2
  have a: "num_sets c1 * num_ways c1 * block_size c1 = cache_size c1"
    and g: "geometry c1' = geometry c1" by blast+
  from geometry_invariant [OF 3]
  have b: "num_ways c2 = cache_size c2 div block_size c2" "num_sets c2 = 1" by blast+
  show ?thesis
    by (rule exI [of _ c1], rule exI [of _ c1'], rule exI [of _ c2])
       (intro conjI 1 2 3 n d a g b w)
qed

text \<open>
  Claim C2 (configuration errors), as stated: construction fails when the write-policy
  value is unrecognized. The constructor stores \<open>write_policy\<close> without looking at it:
  with the value 7, which is neither \<open>WB\<close> nor \<open>WT\<close>, a cache is constructed.
\<close>

theorem write_policy_unchecked_counterexample:
  "(7 :: int) \<noteq> WB \<and> (7 :: int) \<noteq> WT \<and> \<not> isl (Cache_init 8 4 7 Direct_Mapped)
   \<and> write_policy (projr (Cache_init 8 4 7 Direct_Mapped)) = 7"
  by code_simp

text \<open>
  Claim C2, amended. Construction fails with a \<open>RuntimeError\<close> whenever \<open>cache_size\<close> is
  zero, \<open>block_size\<close> is zero or the placement value is unrecognized, whatever the
  write-policy value; no cache is produced, and the sweep driver skips that configuration
  and goes on with the remaining ones.
\<close>

theorem configuration_error:
  assumes "cs = 0 \<or> bs = 0
           \<or> pt \<notin> {Direct_Mapped, Two_Way, Four_Way, Fully_Associative}"
  shows "(\<exists>msg. Cache_init cs bs wp pt = Inl (RuntimeError msg))
       \<and> sweep ((cs, bs, pt, wp) # cfgs) ops = sweep cfgs ops"
proof -
  have "\<exists>msg. Cache_init cs bs wp pt = Inl (RuntimeError msg)"
  proof (cases "bs = 0")
    case True
    then show ?thesis by (simp add: Cache_init_def)
  next
    case bs: False
    show ?thesis
    proof (cases "cs = 0")
      case True
      with bs show ?thesis by (simp add: Cache_init_def)
    next
      case False
      with bs assms show ?thesis by (simp add: Cache_init_def and_then_def)
    qed
  qed
  then show ?thesis by auto
qed

theorem configuration_error_witness:
  "(\<exists>msg. Cache_init 0 4 WB Direct_Mapped = Inl (RuntimeError msg))
   \<and> (\<exists>msg. Cache_init 8 0 WT Two_Way = Inl (RuntimeError msg))
   \<and> 9 \<notin> {Direct_Mapped, Two_Way, Four_Way, Fully_Associative}
   \<and> (\<exists>msg. Cache_init 8 4 WB 9 = Inl (RuntimeError msg))
   \<and> sweep [(0, 4, Direct_Mapped, WB), (8, 4, Direct_Mapped, WB)] [(''read'', 0)]
       = sweep [(8, 4, Direct_Mapped, WB)] [(''read'', 0)]
   \<and> \<not> isl (sweep [(8, 4, Direct_Mapped, WB)] [(''read'', 0)])
   \<and> length (projr (sweep [(8, 4, Direct_Mapped, WB)] [(''read'', 0)])) = 1"
proof -
  have n: "9 \<notin> {Direct_Mapped, Two_Way, Four_Way, Fully_Associative}"
    by (simp add: Direct_Mapped_def Two_Way_def Four_Way_def Fully_Associative_def)
  have s: "\<not> isl (sweep [(8, 4, Direct_Mapped, WB)] [(''read'', 0)])"
    "length (projr (sweep [(8, 4, Direct_Mapped, WB)] [(''read'', 0)])) = 1"
    by code_simp+
  from configuration_error [of 0 4 Direct_Mapped WB "[(8, 4, Direct_Mapped, WB)]" "[(''read'', 0)]"]
    configuration_error [of 8 0 Two_Way WT] configuration_error [of 8 4 9 WB] n s
  show ?thesis by simp
qed

text \<open>
  Claim C8 (scenario C, write-back dirty eviction). A cache constructed with
  \<open>cache_size = 8\<close>, \<open>block_size = 4\<close>, direct-mapped, write-back has two sets. The call
  \<open>write 0x00\<close> misses and leaves \<open>bytes_to_memory\<close> at 0; the call \<open>write 0x08\<close> misses
  in the same set, evicts the dirty block of tag 0 and installs tag 1, and the final
  counters are \<open>bytes_to_memory = 4\<close> and \<open>bytes_to_cache = 8\<close>.
\<close>

theorem scenario_write_back_eviction:
  "\<exists>c0 c1 c2. Cache_init 8 4 WB Direct_Mapped = Inr c0
     \<and> num_sets c0 = 2
     \<and> write c0 0 = Inr (False, c1)
     \<and> get_block_index c0 0 = Inr 0 \<and> get_tag c0 0 = Inr 0
     \<and> bytes_to_memory c1 = 0 \<and> bytes_to_cache c1 = 4
     \<and> write c1 8 = Inr (False, c2)
     \<and> get_block_index c1 8 = Inr 0 \<and> get_tag c1 8 = Inr 1
     \<and> bytes_to_memory c2 = 4 \<and> bytes_to_cache c2 = 8
     \<and> run c0 [Write 0, Write 8] = Inr c2"
proof -
  define c0 where "c0 = projr (Cache_init 8 4 WB Direct_Mapped)"
  define c1 where "c1 = snd (projr (write c0 0))"
  define c2 where "c2 = snd (projr (write c1 8))"
  have 1: "Cache_init 8 4 WB Direct_Mapped = Inr c0"
    unfolding c0_def by (rule Inr_projr) code_simp
  have "\<not> isl (write c0 0)" "\<not> fst (projr (write c0 0))"
    unfolding c0_def by code_simp+
  then have 2: "write c0 0 = Inr (False, c1)"
    unfolding c1_def by (cases "write c0 0") auto
  have "\<not> isl (write c1 8)" "\<not> fst (projr (write c1 8))"
    unfolding c1_def c0_def by code_simp+
  then have 3: "write c1 8 = Inr (False, c2)"
    unfolding c2_def by (cases "write c1 8") auto
  have 4: "run c0 [Write 0, Write 8] = Inr c2"
    by (simp add: 2 3 and_then_def)
  have 5: "num_sets c0 = 2" "get_block_index c0 0 = Inr 0" "get_tag c0 0 = Inr 0"
    unfolding c0_def by code_simp+
  have 6: "bytes_to_memory c1 = 0" "bytes_to_cache c1 = 4"
    "get_block_index c1 8 = Inr 0" "get_tag c1 8 = Inr 1"
    unfolding c1_def c0_def by code_simp+
  have 7: "bytes_to_memory c2 = 4" "bytes_to_cache c2 = 8"
    unfolding c2_def c1_def c0_def by code_simp+
  show ?thesis
    by (rule exI [of _ c0], rule exI [of _ c1], rule exI [of _ c2])
       (intro conjI 1 2 3 4 5 6 7)
qed

lemma trace_loop_error:
  assumes "\<exists>l\<in>set ls. length (split_line l) = 2 \<and> parse_hex (split_line l ! 1) = None"
  shows "trace_loop split_line parse_hex acc ls = Inl ValueError"
  using assms
proof (induction ls arbitrary: acc)
  case Nil
  then show ?case by simp
next
  case (Cons l ls)
  show ?case
  proof (cases "length (split_line l) = 2")
    case two: True
    show ?thesis
    proof (cases "parse_hex (split_line l ! 1)")
      case None
      with two show ?thesis by (simp add: Let_def)
    next
      case (Some a)
      with two Cons.prems
      have "\<exists>l\<in>set ls. length (split_line l) = 2 \<and> parse_hex (split_line l ! 1) = None"
        by auto
      from Cons.IH [OF this] two Some show ?thesis by (simp add: Let_def)
    qed
  next
    case False
    with Cons.prems
    have "\<exists>l\<in>set ls. length (split_line l) = 2 \<and> parse_hex (split_line l ! 1) = None"
      by auto
    from Cons.IH [OF this] False show ?thesis by (simp add: Let_def)
  qed
qed

lemma trace_loop_ok:
  assumes "\<forall>l\<in>set ls. length (split_line l) = 2 \<longrightarrow> parse_hex (split_line l ! 1) \<noteq> None"
  shows "trace_loop split_line parse_hex acc ls =
           Inr (acc @ map (\<lambda>l. (split_line l ! 0, the (parse_hex (split_line l ! 1))))
                        (filter (\<lambda>l. length (split_line l) = 2) ls))"
  using assms
proof (induction ls arbitrary: acc)
  case Nil
  then show ?case by simp
next
  case (Cons l ls)
  then have rest: "\<forall>l\<in>set ls. length (split_line l) = 2 \<longrightarrow> parse_hex (split_line l ! 1) \<noteq> None"
    by simp
  show ?case
  proof (cases "length (split_line l) = 2")
    case True
    with Cons.prems obtain a where "parse_hex (split_line l ! 1) = Some a" by auto
    with True Cons.IH [OF rest] show ?thesis by (simp add: Let_def)
  next
    case False
    with Cons.IH [OF rest] show ?thesis by (simp add: Let_def)
  qed
qed

text \<open>
  Claim C10 (bad address in the trace). If some line of the trace file splits into
  exactly two fields and its second field is not a hexadecimal integer, the
  \<open>ValueError\<close> of the conversion leaves \<open>read_trace_file\<close> uncaught, and
  \<open>simulate_trace\<close> with it: no operation list is produced. If there is no such line,
  \<open>read_trace_file\<close> returns the operations of the lines with two fields, in order: the
  lines with another number of fields, and only they, are passed over.
\<close>

theorem trace_bad_address:
  "((\<exists>l\<in>set ls. length (split_line l) = 2 \<and> parse_hex (split_line l ! 1) = None) \<longrightarrow>
      read_trace_file split_line parse_hex (Some ls) = Inl ValueError
      \<and> simulate_trace split_line parse_hex (Some ls) = Inl ValueError)
   \<and> ((\<forall>l\<in>set ls. length (split_line l) = 2 \<longrightarrow> parse_hex (split_line l ! 1) \<noteq> None) \<longrightarrow>
      read_trace_file split_line parse_hex (Some ls) =
        Inr (map (\<lambda>l. (split_line l ! 0, the (parse_hex (split_line l ! 1))))
               (filter (\<lambda>l. length (split_line l) = 2) ls)))"
  using trace_loop_error [of ls split_line parse_hex "[]"]
    trace_loop_ok [of ls split_line parse_hex "[]"]
  by (simp add: read_trace_file_def simulate_trace_def and_then_def)

theorem trace_bad_address_witness:
  "ascii_fields ''write zz'' = [''write'', ''zz''] \<and> ascii_int16 ''zz'' = None
   \<and> read_trace_file ascii_fields ascii_int16 (Some [''read 10'', ''write zz'', ''read 20''])
       = Inl ValueError
   \<and> simulate_trace ascii_fields ascii_int16 (Some [''read 10'', ''write zz'', ''read 20''])
       = Inl ValueError
   \<and> read_trace_file ascii_fields ascii_int16
        (Some [''read 10'', '''', ''bogus'', ''write 0x20 extra'', ''store ff''])
       = Inr [(''read'', 16), (''store'', 255)]"
proof -
  define bad where "bad = [''read 10'', ''write zz'', ''read 20'']"
  define good where "good = [''read 10'', '''', ''bogus'', ''write 0x20 extra'', ''store ff'']"
  have f: "ascii_fields ''write zz'' = [''write'', ''zz'']" by code_simp
  have p: "ascii_int16 ''zz'' = None" by code_simp
  have "''write zz'' \<in> set bad" by (simp add: bad_def)
  with f p have h1: "\<exists>l\<in>set bad. length (ascii_fields l) = 2
      \<and> ascii_int16 (ascii_fields l ! 1) = None"
    by (intro bexI [of _ "''write zz''"]) simp_all
  have h2: "\<forall>l\<in>set good. length (ascii_fields l) = 2
      \<longrightarrow> ascii_int16 (ascii_fields l ! 1) \<noteq> None"
    unfolding good_def by code_simp
  have v: "map (\<lambda>l. (ascii_fields l ! 0, the (ascii_int16 (ascii_fields l ! 1))))
               (filter (\<lambda>l. length (ascii_fields l) = 2) good)
           = [(''read'', 16), (''store'', 255)]"
    unfolding good_def by code_simp
  from trace_bad_address [of bad ascii_fields ascii_int16] h1
  have a: "read_trace_file ascii_fields ascii_int16 (Some bad) = Inl ValueError"
    "simulate_trace ascii_fields ascii_int16 (Some bad) = Inl ValueError" by blast+
  from trace_bad_address [of good ascii_fields ascii_int16] h2 v
  have b: "read_trace_file ascii_fields ascii_int16 (Some good)
           = Inr [(''read'', 16), (''store'', 255)]" by simp
  show ?thesis
    unfolding bad_def [symmetric] good_def [symmetric]
    by (intro conjI f p a b)
qed

end
